theory Spec2Isabelle
  imports Main "HOL-Library.Word"
begin

section \<open>Data model of gumv8object.cpp\<close>

text \<open>
  Pointers are modelled as natural numbers into explicit heaps: one heap of
  GumV8Object values, one of GumV8ObjectOperation values and one of
  GumV8ModuleOperation values. A freed cell is absent from its heap, and
  addresses are handed out by a counter and never reused, so that every access
  through a dangling pointer is visible as the error \<open>InvalidAccess\<close> instead
  of being silently defined. A failed \<open>g_assert\<close> aborts the process and is
  the error \<open>AssertionFailed\<close>.
\<close>

datatype error = AssertionFailed | InvalidAccess

text \<open>
  The calls a function makes to its collaborators and the updates of the
  counters and queues are recorded, in program order, in a log kept in the
  state.
\<close>

datatype action =
    Pin
  | Unpin
  | JobStart nat
  | Cleanup nat
  | DeleteWrapper nat
  | DeleteCallback nat
  | Increment nat
  | Decrement nat
  | PushTail nat nat
  | PopHead nat nat
  | ModuleCleanup nat
  | ModuleDeleteCallback nat

text \<open>
  GumV8Object: \<open>cancellable\<close> is the state of the object's GCancellable
  (True once cancelled), \<open>num_active_operations\<close> is the unsigned counter
  compared by \<open>g_assert_cmpuint\<close> (a guint, 32 bits), \<open>pending_operations\<close>
  is the GQueue of operation pointers, head first.
\<close>

record gum_object =
  handle :: nat
  cancellable :: bool
  num_active_operations :: "32 word"
  pending_operations :: "nat list"

text \<open>
  GumV8ObjectOperation: \<open>object\<close> is the owner pointer, \<open>job_started\<close> says
  whether the operation's job was handed to the JS thread,
  \<open>pending_dependencies\<close> is the GSList of probe pointers, \<open>cleanup\<close> says
  whether the cleanup callback is non-NULL. \<open>blocked_operation\<close> is the extra
  field of GumV8TryScheduleIfIdleOperation; it is \<open>None\<close> in an operation that
  is not such a probe.
\<close>

record gum_operation =
  object :: nat
  job_started :: bool
  pending_dependencies :: "nat list"
  cleanup :: bool
  blocked_operation :: "nat option"

record gum_module_operation =
  module_cleanup :: bool

text \<open>
  The state: the GumV8ObjectManager (its cancellable, its hash table as an
  association list from handle to object pointer, and whether it has been
  freed), the three heaps with their allocation counters, the usage count of
  the core that pin and unpin adjust, and the log.
\<close>

record state =
  manager_cancellable :: bool
  manager_freed :: bool
  object_by_handle :: "(nat \<times> nat) list"
  objects :: "nat \<rightharpoonup> gum_object"
  operations :: "nat \<rightharpoonup> gum_operation"
  module_operations :: "nat \<rightharpoonup> gum_module_operation"
  next_object :: nat
  next_operation :: nat
  next_module_operation :: nat
  usage_count :: int
  trace :: "action list"

definition log_action :: "action \<Rightarrow> state \<Rightarrow> state" where
  "log_action a s = s\<lparr>trace := trace s @ [a]\<rparr>"

section \<open>Collaborators\<close>

text \<open>
  Modelled from the spec: \<open>_gum_v8_core_pin\<close> and \<open>_gum_v8_core_unpin\<close> are
  defined outside the file; the runtime pin is a reference count, pin adds one
  and unpin removes one.
\<close>

definition gum_v8_core_pin :: "state \<Rightarrow> state" where
  "gum_v8_core_pin s = log_action Pin (s\<lparr>usage_count := usage_count s + 1\<rparr>)"

definition gum_v8_core_unpin :: "state \<Rightarrow> state" where
  "gum_v8_core_unpin s = log_action Unpin (s\<lparr>usage_count := usage_count s - 1\<rparr>)"

text \<open>
  Modelled from the spec: \<open>gum_script_job_start_on_js_thread\<close> belongs to the
  job facility; it submits the job, which from then on is running.
\<close>

definition gum_script_job_start_on_js_thread :: "nat \<Rightarrow> state \<Rightarrow> error + state" where
  "gum_script_job_start_on_js_thread p s =
     (case operations s p of
        None \<Rightarrow> Inl InvalidAccess
      | Some op \<Rightarrow>
          Inr (log_action (JobStart p)
                 (s\<lparr>operations := (operations s)(p \<mapsto> op\<lparr>job_started := True\<rparr>)\<rparr>)))"

section \<open>The object manager\<close>

definition gum_v8_object_manager_init :: "int \<Rightarrow> state" where
  "gum_v8_object_manager_init u =
     \<lparr>manager_cancellable = False, manager_freed = False, object_by_handle = [],
      objects = Map.empty, operations = Map.empty, module_operations = Map.empty,
      next_object = 0, next_operation = 0, next_module_operation = 0,
      usage_count = u, trace = []\<rparr>"

definition gum_v8_object_free :: "nat \<Rightarrow> state \<Rightarrow> error + state" where
  "gum_v8_object_free oid s =
     (case objects s oid of
        None \<Rightarrow> Inl InvalidAccess
      | Some ob \<Rightarrow>
          if num_active_operations ob \<noteq> 0 then Inl AssertionFailed
          else if pending_operations ob \<noteq> [] then Inl AssertionFailed
          else Inr (s\<lparr>objects := (objects s)(oid := None)\<rparr>))"

text \<open>
  \<open>g_cancellable_cancel (object->cancellable)\<close> through an object pointer.
\<close>

definition cancel_object :: "nat \<Rightarrow> state \<Rightarrow> error + state" where
  "cancel_object oid s =
     (case objects s oid of
        None \<Rightarrow> Inl InvalidAccess
      | Some ob \<Rightarrow> Inr (s\<lparr>objects := (objects s)(oid \<mapsto> ob\<lparr>cancellable := True\<rparr>)\<rparr>))"

text \<open>The loop of \<open>gum_v8_object_manager_flush\<close> over the values of the table.\<close>

fun flush_objects :: "nat list \<Rightarrow> state \<Rightarrow> error + state" where
  "flush_objects [] s = Inr s"
| "flush_objects (oid # rest) s =
     (case cancel_object oid s of
        Inl e \<Rightarrow> Inl e
      | Inr s' \<Rightarrow> flush_objects rest s')"

definition gum_v8_object_manager_flush :: "state \<Rightarrow> error + state" where
  "gum_v8_object_manager_flush s =
     (if manager_freed s then Inl InvalidAccess
      else case flush_objects (map snd (object_by_handle s)) s of
             Inl e \<Rightarrow> Inl e
           | Inr s' \<Rightarrow> Inr (s'\<lparr>manager_cancellable := True\<rparr>))"

text \<open>
  \<open>g_hash_table_remove_all\<close> on a table created with the value destructor
  \<open>gum_v8_object_free\<close>: every entry leaves the table and its value is
  destroyed.
\<close>

fun g_hash_table_remove_all :: "nat list \<Rightarrow> state \<Rightarrow> error + state" where
  "g_hash_table_remove_all [] s = Inr s"
| "g_hash_table_remove_all (oid # rest) s =
     (case gum_v8_object_free oid s of
        Inl e \<Rightarrow> Inl e
      | Inr s' \<Rightarrow> g_hash_table_remove_all rest s')"

definition gum_v8_object_manager_free :: "state \<Rightarrow> error + state" where
  "gum_v8_object_manager_free s =
     (if manager_freed s then Inl InvalidAccess
      else case g_hash_table_remove_all (map snd (object_by_handle s))
                  (s\<lparr>object_by_handle := []\<rparr>) of
             Inl e \<Rightarrow> Inl e
           | Inr s' \<Rightarrow> Inr (s'\<lparr>manager_freed := True\<rparr>))"

text \<open>
  \<open>g_hash_table_insert\<close>: a new key is added; for a key already in the table
  the value is replaced and the old value is handed to the value destructor.
\<close>

definition g_hash_table_insert :: "nat \<Rightarrow> nat \<Rightarrow> state \<Rightarrow> error + state" where
  "g_hash_table_insert h oid s =
     (case map_of (object_by_handle s) h of
        None \<Rightarrow> Inr (s\<lparr>object_by_handle := object_by_handle s @ [(h, oid)]\<rparr>)
      | Some old \<Rightarrow>
          gum_v8_object_free old
            (s\<lparr>object_by_handle :=
                 map (\<lambda>(k, v). if k = h then (k, oid) else (k, v)) (object_by_handle s)\<rparr>))"

text \<open>
  \<open>g_hash_table_remove\<close>: the entry of the key, if any, leaves the table and
  its value is destroyed.
\<close>

definition g_hash_table_remove :: "nat \<Rightarrow> state \<Rightarrow> error + state" where
  "g_hash_table_remove h s =
     (case map_of (object_by_handle s) h of
        None \<Rightarrow> Inr s
      | Some old \<Rightarrow>
          gum_v8_object_free old
            (s\<lparr>object_by_handle := filter (\<lambda>(k, v). k \<noteq> h) (object_by_handle s)\<rparr>))"

definition gum_v8_object_manager_add :: "nat \<Rightarrow> state \<Rightarrow> error + (nat \<times> state)" where
  "gum_v8_object_manager_add h s =
     (if manager_freed s then Inl InvalidAccess
      else
        let oid = next_object s;
            s1 = s\<lparr>objects := (objects s)(oid \<mapsto>
                      \<lparr>handle = h, cancellable = False,
                       num_active_operations = 0, pending_operations = []\<rparr>),
                    next_object := Suc oid\<rparr>
        in case g_hash_table_insert h oid s1 of
             Inl e \<Rightarrow> Inl e
           | Inr s2 \<Rightarrow> Inr (oid, s2))"

definition gum_v8_object_manager_lookup :: "nat \<Rightarrow> state \<Rightarrow> error + nat option" where
  "gum_v8_object_manager_lookup h s =
     (if manager_freed s then Inl InvalidAccess
      else Inr (map_of (object_by_handle s) h))"

definition gum_v8_object_manager_cancel :: "nat \<Rightarrow> state \<Rightarrow> error + (bool \<times> state)" where
  "gum_v8_object_manager_cancel h s =
     (if manager_freed s then Inl InvalidAccess
      else case map_of (object_by_handle s) h of
             None \<Rightarrow> Inr (False, s)
           | Some oid \<Rightarrow>
               (case cancel_object oid s of
                  Inl e \<Rightarrow> Inl e
                | Inr s' \<Rightarrow> Inr (True, s')))"

definition gum_v8_object_on_weak_notify :: "nat \<Rightarrow> state \<Rightarrow> error + state" where
  "gum_v8_object_on_weak_notify oid s =
     (case objects s oid of
        None \<Rightarrow> Inl InvalidAccess
      | Some ob \<Rightarrow>
          if manager_freed s then Inl InvalidAccess
          else g_hash_table_remove (handle ob) s)"

section \<open>Object operations\<close>

definition gum_v8_object_operation_new :: "nat \<Rightarrow> bool \<Rightarrow> state \<Rightarrow> error + (nat \<times> state)" where
  "gum_v8_object_operation_new oid cl s =
     (case objects s oid of
        None \<Rightarrow> Inl InvalidAccess
      | Some ob \<Rightarrow>
          let p = next_operation s
          in Inr (p, gum_v8_core_pin
                       (s\<lparr>operations := (operations s)(p \<mapsto>
                             \<lparr>object = oid, job_started = False,
                              pending_dependencies = [], cleanup = cl,
                              blocked_operation = None\<rparr>),
                           next_operation := Suc p\<rparr>)))"

definition gum_v8_object_operation_schedule :: "nat \<Rightarrow> state \<Rightarrow> error + state" where
  "gum_v8_object_operation_schedule p s =
     (case operations s p of
        None \<Rightarrow> Inl InvalidAccess
      | Some op \<Rightarrow>
          (case objects s (object op) of
             None \<Rightarrow> Inl InvalidAccess
           | Some ob \<Rightarrow>
               gum_script_job_start_on_js_thread p
                 (log_action (Increment (object op))
                    (s\<lparr>objects := (objects s)(object op \<mapsto>
                          ob\<lparr>num_active_operations := num_active_operations ob + 1\<rparr>)\<rparr>))))"

definition gum_v8_object_operation_try_schedule_when_idle :: "nat \<Rightarrow> state \<Rightarrow> error + state" where
  "gum_v8_object_operation_try_schedule_when_idle p s =
     (case operations s p of
        None \<Rightarrow> Inl InvalidAccess
      | Some op \<Rightarrow>
          if pending_dependencies op \<noteq> [] then Inr s
          else
            (case objects s (object op) of
               None \<Rightarrow> Inl InvalidAccess
             | Some ob \<Rightarrow>
                 if num_active_operations ob = 0
                 then gum_v8_object_operation_schedule p s
                 else Inr (log_action (PushTail (object op) p)
                             (s\<lparr>objects := (objects s)(object op \<mapsto>
                                   ob\<lparr>pending_operations := pending_operations ob @ [p]\<rparr>)\<rparr>))))"

definition gum_v8_object_operation_free :: "nat \<Rightarrow> state \<Rightarrow> error + state" where
  "gum_v8_object_operation_free p s =
     (case operations s p of
        None \<Rightarrow> Inl InvalidAccess
      | Some op \<Rightarrow>
          (case objects s (object op) of
             None \<Rightarrow> Inl InvalidAccess
           | Some ob \<Rightarrow>
               if pending_dependencies op \<noteq> [] then Inl AssertionFailed
               else
                 (let s1 = (if cleanup op then log_action (Cleanup p) s else s);
                     s2 = log_action (DeleteCallback p) (log_action (DeleteWrapper p) s1);
                     n = num_active_operations ob - 1;
                     s3 = log_action (Decrement (object op))
                            (s2\<lparr>objects := (objects s2)(object op \<mapsto>
                                   ob\<lparr>num_active_operations := n\<rparr>)\<rparr>)
                 in case (if n = 0
                          then (case pending_operations ob of
                                  [] \<Rightarrow> Inr s3
                                | next # rest \<Rightarrow>
                                    gum_v8_object_operation_schedule next
                                      (log_action (PopHead (object op) next)
                                         (s3\<lparr>objects := (objects s3)(object op \<mapsto>
                                                ob\<lparr>num_active_operations := n,
                                                   pending_operations := rest\<rparr>)\<rparr>)))
                          else Inr s3) of
                      Inl e \<Rightarrow> Inl e
                    | Inr s4 \<Rightarrow>
                        (let s5 = gum_v8_core_unpin s4
                         in Inr (s5\<lparr>operations := (operations s5)(p := None)\<rparr>)))))"

text \<open>
  Modelled from the spec: \<open>gum_v8_object_operation_finish\<close> is declared outside
  the file; finishing releases the operation's job, whose destroy notifier,
  registered in \<open>_gum_v8_object_operation_new\<close>, is
  \<open>gum_v8_object_operation_free\<close>.
\<close>

definition gum_v8_object_operation_finish :: "nat \<Rightarrow> state \<Rightarrow> error + state" where
  "gum_v8_object_operation_finish p s = gum_v8_object_operation_free p s"

text \<open>
  Modelled from the spec: \<open>gum_v8_object_operation_schedule_when_idle (op)\<close>, the
  one-argument form that the dependency loop calls to submit a probe, is declared
  outside the file. Probes are leaf operations with no dependencies of their own:
  the call reaches \<open>_gum_v8_object_operation_schedule_when_idle\<close> with a NULL
  array, which skips the loop and only tries to schedule the probe.
\<close>

definition gum_v8_object_operation_schedule_when_idle_no_dependencies ::
    "nat \<Rightarrow> state \<Rightarrow> error + state" where
  "gum_v8_object_operation_schedule_when_idle_no_dependencies p s =
     gum_v8_object_operation_try_schedule_when_idle p s"

text \<open>
  \<open>_gum_v8_object_operation_schedule_when_idle\<close>. The dependency array is
  \<open>None\<close> for a NULL pointer. The loop is the recursion on the rest of the
  array; each busy dependency gets a probe, created with no callback and no
  cleanup, that blocks \<open>self\<close>, is prepended to the pending dependencies of
  \<open>self\<close> and is submitted. After the loop the operation itself is tried.
\<close>

fun gum_v8_object_operation_schedule_when_idle ::
    "nat \<Rightarrow> nat list option \<Rightarrow> state \<Rightarrow> error + state" where
  "gum_v8_object_operation_schedule_when_idle self None s =
     gum_v8_object_operation_try_schedule_when_idle self s"
| "gum_v8_object_operation_schedule_when_idle self (Some []) s =
     gum_v8_object_operation_try_schedule_when_idle self s"
| "gum_v8_object_operation_schedule_when_idle self (Some (dependency # rest)) s =
     (case objects s dependency of
        None \<Rightarrow> Inl InvalidAccess
      | Some dep \<Rightarrow>
          if num_active_operations dep > 0
          then
            (case gum_v8_object_operation_new dependency False s of
               Inl e \<Rightarrow> Inl e
             | Inr (p, s1) \<Rightarrow>
                 (case operations s1 p of
                    None \<Rightarrow> Inl InvalidAccess
                  | Some probe \<Rightarrow>
                      let s2 = s1\<lparr>operations := (operations s1)(p \<mapsto>
                                    probe\<lparr>blocked_operation := Some self\<rparr>)\<rparr>
                      in (case operations s2 self of
                            None \<Rightarrow> Inl InvalidAccess
                          | Some me \<Rightarrow>
                              let s3 = s2\<lparr>operations := (operations s2)(self \<mapsto>
                                            me\<lparr>pending_dependencies :=
                                                  p # pending_dependencies me\<rparr>)\<rparr>
                              in (case gum_v8_object_operation_schedule_when_idle_no_dependencies
                                         p s3 of
                                    Inl e \<Rightarrow> Inl e
                                  | Inr s4 \<Rightarrow>
                                      gum_v8_object_operation_schedule_when_idle
                                        self (Some rest) s4))))
          else gum_v8_object_operation_schedule_when_idle self (Some rest) s)"

definition gum_v8_try_schedule_if_idle_operation_perform :: "nat \<Rightarrow> state \<Rightarrow> error + state" where
  "gum_v8_try_schedule_if_idle_operation_perform p s =
     (case operations s p of
        None \<Rightarrow> Inl InvalidAccess
      | Some self \<Rightarrow>
          (case blocked_operation self of
             None \<Rightarrow> Inl InvalidAccess
           | Some b \<Rightarrow>
               (case operations s b of
                  None \<Rightarrow> Inl InvalidAccess
                | Some op \<Rightarrow>
                    let s1 = s\<lparr>operations := (operations s)(b \<mapsto>
                                  op\<lparr>pending_dependencies :=
                                       remove1 p (pending_dependencies op)\<rparr>)\<rparr>
                    in (case gum_v8_object_operation_try_schedule_when_idle b s1 of
                          Inl e \<Rightarrow> Inl e
                        | Inr s2 \<Rightarrow> gum_v8_object_operation_finish p s2))))"

section \<open>Module operations\<close>

text \<open>
  \<open>_gum_v8_module_operation_new\<close> copies the pointer \<open>manager->cancellable\<close> into
  the operation without going through it, pins and returns: it has no failing
  branch, whatever the state of the manager.
\<close>

definition gum_v8_module_operation_new :: "bool \<Rightarrow> state \<Rightarrow> error + (nat \<times> state)" where
  "gum_v8_module_operation_new cl s =
     (let m = next_module_operation s
      in Inr (m, gum_v8_core_pin
                   (s\<lparr>module_operations := (module_operations s)(m \<mapsto>
                         \<lparr>module_cleanup = cl\<rparr>),
                       next_module_operation := Suc m\<rparr>)))"

definition gum_v8_module_operation_free :: "nat \<Rightarrow> state \<Rightarrow> error + state" where
  "gum_v8_module_operation_free m s =
     (case module_operations s m of
        None \<Rightarrow> Inl InvalidAccess
      | Some op \<Rightarrow>
          let s1 = (if module_cleanup op then log_action (ModuleCleanup m) s else s);
              s2 = gum_v8_core_unpin (log_action (ModuleDeleteCallback m) s1)
          in Inr (s2\<lparr>module_operations := (module_operations s2)(m := None)\<rparr>))"

section \<open>Schedules\<close>

text \<open>
  The calls that reach the file from outside: the entry points used by client
  modules, the weak callback fired by the garbage collector, the job facility
  running the perform function of a started probe (\<open>Perform\<close>), and a client
  job finishing its operation (\<open>Finish\<close>).
\<close>

datatype event =
    ManagerAdd nat
  | ManagerCancel nat
  | ManagerFlush
  | ManagerFree
  | WeakNotify nat
  | OperationNew nat bool
  | Schedule nat
  | ScheduleWhenIdle nat "nat list option"
  | Perform nat
  | Finish nat
  | ModuleOperationNew bool
  | ModuleFinish nat

fun step :: "event \<Rightarrow> state \<Rightarrow> error + state" where
  "step (ManagerAdd h) s =
     (case gum_v8_object_manager_add h s of Inl e \<Rightarrow> Inl e | Inr (oid, s') \<Rightarrow> Inr s')"
| "step (ManagerCancel h) s =
     (case gum_v8_object_manager_cancel h s of Inl e \<Rightarrow> Inl e | Inr (found, s') \<Rightarrow> Inr s')"
| "step ManagerFlush s = gum_v8_object_manager_flush s"
| "step ManagerFree s = gum_v8_object_manager_free s"
| "step (WeakNotify oid) s = gum_v8_object_on_weak_notify oid s"
| "step (OperationNew oid cl) s =
     (case gum_v8_object_operation_new oid cl s of Inl e \<Rightarrow> Inl e | Inr (p, s') \<Rightarrow> Inr s')"
| "step (Schedule p) s = gum_v8_object_operation_schedule p s"
| "step (ScheduleWhenIdle p deps) s = gum_v8_object_operation_schedule_when_idle p deps s"
| "step (Perform p) s = gum_v8_try_schedule_if_idle_operation_perform p s"
| "step (Finish p) s = gum_v8_object_operation_finish p s"
| "step (ModuleOperationNew cl) s =
     (case gum_v8_module_operation_new cl s of Inl e \<Rightarrow> Inl e | Inr (m, s') \<Rightarrow> Inr s')"
| "step (ModuleFinish m) s = gum_v8_module_operation_free m s"

text \<open>
  What the collaborators guarantee about when a call can happen.

  Every operation holds a persistent handle on the wrapper of its object from
  \<open>_gum_v8_object_operation_new\<close> until \<open>gum_v8_object_operation_free\<close>, so the
  weak callback of an object fires only when no operation of that object is
  allocated (\<open>wrapper_held\<close>).

  A client submits an operation it created, once: the operation is neither
  started, nor waiting for probes, nor queued, nor a probe (\<open>unsubmitted\<close>).

  The job facility performs and finishes started jobs only; the manager is
  freed only when no operation of either kind is left.
\<close>

definition wrapper_held :: "state \<Rightarrow> nat \<Rightarrow> bool" where
  "wrapper_held s oid =
     list_ex (\<lambda>p. case operations s p of None \<Rightarrow> False | Some op \<Rightarrow> object op = oid)
       [0..<next_operation s]"

definition unsubmitted :: "state \<Rightarrow> nat \<Rightarrow> bool" where
  "unsubmitted s p =
     (case operations s p of
        None \<Rightarrow> False
      | Some op \<Rightarrow>
          \<not> job_started op \<and> pending_dependencies op = [] \<and> blocked_operation op = None \<and>
          (case objects s (object op) of
             None \<Rightarrow> True
           | Some ob \<Rightarrow> p \<notin> set (pending_operations ob)))"

fun permitted :: "state \<Rightarrow> event \<Rightarrow> bool" where
  "permitted s (WeakNotify oid) = (objects s oid \<noteq> None \<and> \<not> wrapper_held s oid)"
| "permitted s ManagerFree =
     (list_all (\<lambda>p. operations s p = None) [0..<next_operation s] \<and>
      list_all (\<lambda>m. module_operations s m = None) [0..<next_module_operation s])"
| "permitted s (Schedule p) = unsubmitted s p"
| "permitted s (ScheduleWhenIdle p deps) = unsubmitted s p"
| "permitted s (Perform p) =
     (case operations s p of
        None \<Rightarrow> False
      | Some op \<Rightarrow> job_started op \<and> blocked_operation op \<noteq> None)"
| "permitted s (Finish p) =
     (case operations s p of
        None \<Rightarrow> False
      | Some op \<Rightarrow> job_started op \<and> blocked_operation op = None)"
| "permitted s (ModuleFinish m) = (module_operations s m \<noteq> None)"
| "permitted s (ManagerAdd h) = True"
| "permitted s (ManagerCancel h) = True"
| "permitted s ManagerFlush = True"
| "permitted s (OperationNew oid cl) = True"
| "permitted s (ModuleOperationNew cl) = True"

text \<open>
  Running a schedule: \<open>None\<close> when an event is not permitted where it occurs
  or when a call aborts or goes through an invalid pointer.
\<close>

fun exec :: "event list \<Rightarrow> state \<Rightarrow> state option" where
  "exec [] s = Some s"
| "exec (e # es) s =
     (if permitted s e
      then (case step e s of Inl err \<Rightarrow> None | Inr s' \<Rightarrow> exec es s')
      else None)"

section \<open>Invariants of the scheduler state\<close>

text \<open>
  The operations of an object whose job has been started and that have not been
  freed yet.
\<close>

definition running :: "(nat \<rightharpoonup> gum_operation) \<Rightarrow> nat \<Rightarrow> nat set" where
  "running ops oid = {p. \<exists>op. ops p = Some op \<and> job_started op \<and> object op = oid}"

text \<open>
  The counter of every allocated object is the number of its running
  operations, as a 32-bit value.
\<close>

definition counters_ok :: "(nat \<rightharpoonup> gum_object) \<Rightarrow> (nat \<rightharpoonup> gum_operation) \<Rightarrow> bool" where
  "counters_ok obs ops \<longleftrightarrow>
     (\<forall>oid ob. obs oid = Some ob \<longrightarrow>
        num_active_operations ob = of_nat (card (running ops oid)))"

text \<open>
  A pending queue has no duplicates and holds allocated operations of its own
  object that are not started and wait for no probe.
\<close>

definition queues_ok :: "(nat \<rightharpoonup> gum_object) \<Rightarrow> (nat \<rightharpoonup> gum_operation) \<Rightarrow> bool" where
  "queues_ok obs ops \<longleftrightarrow>
     (\<forall>oid ob. obs oid = Some ob \<longrightarrow>
        distinct (pending_operations ob) \<and>
        (\<forall>p\<in>set (pending_operations ob).
           \<exists>op. ops p = Some op \<and> object op = oid \<and> \<not> job_started op \<and>
                pending_dependencies op = []))"

text \<open>
  A started operation waits for no probe.
\<close>

definition started_ok :: "(nat \<rightharpoonup> gum_operation) \<Rightarrow> bool" where
  "started_ok ops \<longleftrightarrow>
     (\<forall>p op. ops p = Some op \<longrightarrow> job_started op \<longrightarrow> pending_dependencies op = [])"

text \<open>
  A probe never waits for probes of its own and, unless it is in the set \<open>E\<close>
  of probes that are being resolved, it is listed in the pending dependencies of
  the allocated operation it blocks.
\<close>

definition probes_ok :: "nat set \<Rightarrow> (nat \<rightharpoonup> gum_operation) \<Rightarrow> bool" where
  "probes_ok E ops \<longleftrightarrow>
     (\<forall>p probe b. ops p = Some probe \<longrightarrow> blocked_operation probe = Some b \<longrightarrow>
        pending_dependencies probe = [] \<and>
        (p \<notin> E \<longrightarrow> (\<exists>bo. ops b = Some bo \<and> p \<in> set (pending_dependencies bo))))"

definition sched_ok :: "nat set \<Rightarrow> (nat \<rightharpoonup> gum_object) \<Rightarrow> (nat \<rightharpoonup> gum_operation) \<Rightarrow> bool" where
  "sched_ok E obs ops \<longleftrightarrow>
     finite (dom ops) \<and> counters_ok obs ops \<and> queues_ok obs ops \<and> started_ok ops \<and>
     probes_ok E ops"

text \<open>
  The allocation counters are above every allocated address and every object
  address stored in an operation.
\<close>

definition bounds :: "state \<Rightarrow> bool" where
  "bounds s \<longleftrightarrow>
     (\<forall>oid ob. objects s oid = Some ob \<longrightarrow> oid < next_object s) \<and>
     (\<forall>p op. operations s p = Some op \<longrightarrow> p < next_operation s \<and> object op < next_object s) \<and>
     (\<forall>m mo. module_operations s m = Some mo \<longrightarrow> m < next_module_operation s)"

text \<open>
  The hash table has one entry per key; it holds exactly the allocated objects,
  each under its own handle.
\<close>

definition registry_ok :: "(nat \<times> nat) list \<Rightarrow> (nat \<rightharpoonup> gum_object) \<Rightarrow> bool" where
  "registry_ok tbl obs \<longleftrightarrow>
     distinct (map fst tbl) \<and>
     (\<forall>h oid. (h, oid) \<in> set tbl \<longrightarrow> (\<exists>ob. obs oid = Some ob \<and> handle ob = h)) \<and>
     (\<forall>oid ob. obs oid = Some ob \<longrightarrow> (handle ob, oid) \<in> set tbl)"

definition invariant :: "nat set \<Rightarrow> state \<Rightarrow> bool" where
  "invariant E s \<longleftrightarrow>
     sched_ok E (objects s) (operations s) \<and>
     registry_ok (object_by_handle s) (objects s) \<and>
     bounds s \<and>
     (manager_freed s \<longrightarrow> object_by_handle s = [])"

text \<open>
  The state after one round of the loop of
  \<open>_gum_v8_object_operation_schedule_when_idle\<close> for a busy dependency \<open>d\<close>:
  the probe is allocated at the next address, blocks \<open>self\<close>, is prepended to the
  pending dependencies of \<open>self\<close> and is queued on \<open>d\<close>.
\<close>

definition arm_probe :: "nat \<Rightarrow> nat \<Rightarrow> gum_object \<Rightarrow> gum_operation \<Rightarrow> state \<Rightarrow> state" where
  "arm_probe self d dep me s =
     s\<lparr>objects := (objects s)(d \<mapsto>
           dep\<lparr>pending_operations := pending_operations dep @ [next_operation s]\<rparr>),
       operations := (operations s)(next_operation s \<mapsto>
           \<lparr>object = d, job_started = False, pending_dependencies = [], cleanup = False,
            blocked_operation = Some self\<rparr>,
          self \<mapsto> me\<lparr>pending_dependencies := next_operation s # pending_dependencies me\<rparr>),
       next_operation := Suc (next_operation s),
       usage_count := usage_count s + 1,
       trace := trace s @ [Pin, PushTail d (next_operation s)]\<rparr>"

section \<open>The log of actions\<close>

text \<open>
  The pending queue of an object, empty for an address that holds no object.
\<close>

definition queue_of :: "state \<Rightarrow> nat \<Rightarrow> nat list" where
  "queue_of s oid = (case objects s oid of None \<Rightarrow> [] | Some ob \<Rightarrow> pending_operations ob)"

text \<open>
  The operations pushed at the tail of the queue of an object, and those popped
  from its head, in the order of the log.
\<close>

definition pushed :: "nat \<Rightarrow> action list \<Rightarrow> nat list" where
  "pushed oid t =
     concat (map (\<lambda>a. case a of PushTail o' x \<Rightarrow> if o' = oid then [x] else [] | _ \<Rightarrow> []) t)"

definition popped :: "nat \<Rightarrow> action list \<Rightarrow> nat list" where
  "popped oid t =
     concat (map (\<lambda>a. case a of PopHead o' x \<Rightarrow> if o' = oid then [x] else [] | _ \<Rightarrow> []) t)"

text \<open>
  In the log every pop of a queue head is followed at once by the increment
  of the counter of the same object and the start of the job of the popped
  operation.
\<close>

primrec pops_started :: "action list \<Rightarrow> bool" where
  "pops_started [] = True"
| "pops_started (a # t) =
     ((case a of PopHead oid x \<Rightarrow> take 2 t = [Increment oid, JobStart x] | _ \<Rightarrow> True) \<and>
      pops_started t)"

text \<open>
  The queue of an object holds the operations pushed and not yet popped, in the
  order in which they were pushed.
\<close>

definition fifo_ok :: "state \<Rightarrow> bool" where
  "fifo_ok s \<longleftrightarrow>
     (\<forall>oid. pushed oid (trace s) = popped oid (trace s) @ queue_of s oid) \<and>
     pops_started (trace s)"

text \<open>
  The usage count is its initial value plus one for every allocated operation
  of either kind, and it is the initial value plus the pins minus the unpins of
  the log.
\<close>

definition pins_ok :: "int \<Rightarrow> state \<Rightarrow> bool" where
  "pins_ok u s \<longleftrightarrow>
     usage_count s =
       u + int (card (dom (operations s))) + int (card (dom (module_operations s))) \<and>
     usage_count s = u + int (count_list (trace s) Pin) - int (count_list (trace s) Unpin)"

definition history_ok :: "int \<Rightarrow> state \<Rightarrow> bool" where
  "history_ok u s \<longleftrightarrow> pins_ok u s \<and> fifo_ok s"

text \<open>
  What the two properties above depend on, and the relation between two states
  and the actions logged between them that preserves both.
\<close>

definition history_view ::
    "state \<Rightarrow> nat set \<times> nat set \<times> int \<times> action list \<times> (nat \<Rightarrow> nat list)" where
  "history_view s =
     (dom (operations s), dom (module_operations s), usage_count s, trace s, queue_of s)"

definition delta_ok :: "state \<Rightarrow> action list \<Rightarrow> state \<Rightarrow> bool" where
  "delta_ok s t s' \<longleftrightarrow>
     trace s' = trace s @ t \<and> pops_started t \<and>
     (\<forall>oid. popped oid t @ queue_of s' oid = queue_of s oid @ pushed oid t) \<and>
     usage_count s' = usage_count s + int (count_list t Pin) - int (count_list t Unpin) \<and>
     int (card (dom (operations s'))) + int (card (dom (module_operations s'))) =
       int (card (dom (operations s))) + int (card (dom (module_operations s))) +
       int (count_list t Pin) - int (count_list t Unpin)"

text \<open>
  The dependencies found busy by the loop of schedule-when-idle, in the order
  of the array, and the probe it creates for one of them.
\<close>

definition busy_dependencies :: "state \<Rightarrow> nat list \<Rightarrow> nat list" where
  "busy_dependencies s ds =
     filter (\<lambda>d. case objects s d of None \<Rightarrow> False
                 | Some dep \<Rightarrow> num_active_operations dep \<noteq> 0) ds"

definition probe_for :: "nat \<Rightarrow> nat \<Rightarrow> gum_operation" where
  "probe_for self d =
     \<lparr>object = d, job_started = False, pending_dependencies = [], cleanup = False,
      blocked_operation = Some self\<rparr>"

section \<open>Evaluation on concrete states\<close>

lemmas model_defs =
  gum_v8_object_manager_init_def gum_v8_object_manager_add_def g_hash_table_insert_def
  g_hash_table_remove_def gum_v8_object_on_weak_notify_def
  gum_v8_object_manager_cancel_def gum_v8_object_manager_flush_def cancel_object_def
  gum_v8_object_manager_free_def gum_v8_object_manager_lookup_def
  gum_v8_object_operation_new_def gum_v8_core_pin_def gum_v8_core_unpin_def log_action_def
  gum_v8_object_operation_schedule_def gum_script_job_start_on_js_thread_def
  gum_v8_object_operation_try_schedule_when_idle_def gum_v8_object_free_def
  gum_v8_object_operation_schedule_when_idle_no_dependencies_def
  gum_v8_object_operation_free_def gum_v8_object_operation_finish_def
  gum_v8_try_schedule_if_idle_operation_perform_def
  gum_v8_module_operation_new_def gum_v8_module_operation_free_def
  unsubmitted_def wrapper_held_def

section \<open>Preservation of the invariants\<close>

lemma finite_running: "finite (dom ops) \<Longrightarrow> finite (running ops oid)"
  by (rule finite_subset[of _ "dom ops"]) (auto simp: running_def)

lemma running_upd:
  "running (ops(p \<mapsto> op')) oid =
     (if job_started op' \<and> object op' = oid then insert p (running ops oid)
      else running ops oid - {p})"
  by (auto simp: running_def)

lemma running_del: "running (ops(p := None)) oid = running ops oid - {p}"
  by (auto simp: running_def)

lemma running_mem: "p \<in> running ops oid \<longleftrightarrow> (\<exists>op. ops p = Some op \<and> job_started op \<and> object op = oid)"
  by (simp add: running_def)

lemma counters_start:
  assumes "finite (dom ops)" "counters_ok obs ops" "ops p = Some op" "\<not> job_started op"
    "obs (object op) = Some ob"
  shows "counters_ok (obs(object op \<mapsto> ob\<lparr>num_active_operations := num_active_operations ob + 1\<rparr>))
           (ops(p \<mapsto> op\<lparr>job_started := True\<rparr>))"
proof -
  have fin: "finite (running ops (object op))" using assms(1) by (rule finite_running)
  have notin: "p \<notin> running ops oid" for oid using assms(3,4) by (simp add: running_mem)
  show ?thesis
    using assms(2,5) fin notin
    by (auto simp: counters_ok_def running_upd)
qed

lemma counters_ok_obj_upd:
  assumes "counters_ok obs ops" "obs oid = Some ob" "num_active_operations ob' = num_active_operations ob"
  shows "counters_ok (obs(oid \<mapsto> ob')) ops"
  using assms by (auto simp: counters_ok_def)

lemma counters_release:
  assumes "finite (dom ops)" "counters_ok obs ops" "ops p = Some op" "job_started op"
    "obs (object op) = Some ob"
  shows "counters_ok (obs(object op \<mapsto> ob\<lparr>num_active_operations := num_active_operations ob - 1\<rparr>))
           (ops(p := None))"
proof -
  have fin: "finite (running ops (object op))" using assms(1) by (rule finite_running)
  have mem: "p \<in> running ops (object op)" using assms(3,4) by (simp add: running_mem)
  have other: "oid \<noteq> object op \<Longrightarrow> p \<notin> running ops oid" for oid
    using assms(3) by (auto simp: running_mem)
  have "card (running ops (object op)) \<ge> 1"
    using fin mem by (metis One_nat_def Suc_leI card_gt_0_iff empty_iff)
  then have "(of_nat (card (running ops (object op)) - 1) :: 32 word) =
        of_nat (card (running ops (object op))) - 1"
    by (simp add: of_nat_diff)
  then show ?thesis
    using assms(2,5) fin mem other
    by (auto simp: counters_ok_def running_del)
qed

lemma queuedD:
  "queues_ok obs ops \<Longrightarrow> obs oid = Some ob \<Longrightarrow> p \<in> set (pending_operations ob) \<Longrightarrow>
     \<exists>op. ops p = Some op \<and> object op = oid \<and> \<not> job_started op \<and>
          pending_dependencies op = []"
  unfolding queues_ok_def by blast

lemma queue_distinctD:
  "queues_ok obs ops \<Longrightarrow> obs oid = Some ob \<Longrightarrow> distinct (pending_operations ob)"
  unfolding queues_ok_def by blast

lemma queues_okI:
  assumes "\<And>oid ob. obs oid = Some ob \<Longrightarrow> distinct (pending_operations ob)"
    and "\<And>oid ob p. obs oid = Some ob \<Longrightarrow> p \<in> set (pending_operations ob) \<Longrightarrow>
           \<exists>op. ops p = Some op \<and> object op = oid \<and> \<not> job_started op \<and>
                pending_dependencies op = []"
  shows "queues_ok obs ops"
  unfolding queues_ok_def using assms by blast

lemma sched_okD:
  assumes "sched_ok E obs ops"
  shows "finite (dom ops)" "counters_ok obs ops" "queues_ok obs ops" "started_ok ops"
    "probes_ok E ops"
  using assms by (simp_all add: sched_ok_def)

lemma probe_pendingD:
  "probes_ok E ops \<Longrightarrow> ops p = Some probe \<Longrightarrow> blocked_operation probe = Some b \<Longrightarrow>
     pending_dependencies probe = []"
  unfolding probes_ok_def by blast

lemma probe_blockedD:
  "probes_ok E ops \<Longrightarrow> ops p = Some probe \<Longrightarrow> blocked_operation probe = Some b \<Longrightarrow>
     p \<notin> E \<Longrightarrow> \<exists>bo. ops b = Some bo \<and> p \<in> set (pending_dependencies bo)"
  unfolding probes_ok_def by blast

lemma probes_okI:
  assumes "\<And>p probe b. ops p = Some probe \<Longrightarrow> blocked_operation probe = Some b \<Longrightarrow>
             pending_dependencies probe = []"
    and "\<And>p probe b. ops p = Some probe \<Longrightarrow> blocked_operation probe = Some b \<Longrightarrow>
             p \<notin> E \<Longrightarrow> \<exists>bo. ops b = Some bo \<and> p \<in> set (pending_dependencies bo)"
  shows "probes_ok E ops"
  unfolding probes_ok_def using assms by blast

lemma sched_start:
  assumes "sched_ok E obs ops" "ops p = Some op" "\<not> job_started op"
    "pending_dependencies op = []" "obs (object op) = Some ob"
    "p \<notin> set (pending_operations ob)"
  shows "sched_ok E (obs(object op \<mapsto> ob\<lparr>num_active_operations := num_active_operations ob + 1\<rparr>))
           (ops(p \<mapsto> op\<lparr>job_started := True\<rparr>))"
proof -
  have c: "counters_ok (obs(object op \<mapsto> ob\<lparr>num_active_operations := num_active_operations ob + 1\<rparr>))
           (ops(p \<mapsto> op\<lparr>job_started := True\<rparr>))"
    using assms by (intro counters_start) (auto simp: sched_ok_def)
  have q: "queues_ok (obs(object op \<mapsto> ob\<lparr>num_active_operations := num_active_operations ob + 1\<rparr>))
           (ops(p \<mapsto> op\<lparr>job_started := True\<rparr>))"
    using assms(2-) sched_okD(3)[OF assms(1)]
    by (intro queues_okI) (auto split: if_splits dest: queuedD queue_distinctD)
  have s: "started_ok (ops(p \<mapsto> op\<lparr>job_started := True\<rparr>))"
    using assms unfolding sched_ok_def started_ok_def by auto
  have pr: "probes_ok E (ops(p \<mapsto> op\<lparr>job_started := True\<rparr>))"
    using assms(2-) sched_okD(5)[OF assms(1)]
    by (intro probes_okI) (fastforce split: if_splits dest: probe_pendingD probe_blockedD)+
  show ?thesis using assms(1) c q s pr by (simp add: sched_ok_def)
qed

lemma sched_enqueue:
  assumes "sched_ok E obs ops" "ops p = Some op" "\<not> job_started op"
    "pending_dependencies op = []" "obs (object op) = Some ob"
    "p \<notin> set (pending_operations ob)"
  shows "sched_ok E (obs(object op \<mapsto> ob\<lparr>pending_operations := pending_operations ob @ [p]\<rparr>)) ops"
proof -
  have c: "counters_ok (obs(object op \<mapsto> ob\<lparr>pending_operations := pending_operations ob @ [p]\<rparr>)) ops"
    using assms by (intro counters_ok_obj_upd[where ob = ob]) (auto simp: sched_ok_def)
  have q: "queues_ok (obs(object op \<mapsto> ob\<lparr>pending_operations := pending_operations ob @ [p]\<rparr>)) ops"
    using assms(2-) sched_okD(3)[OF assms(1)]
    by (intro queues_okI) (auto split: if_splits dest: queuedD queue_distinctD)
  show ?thesis using assms(1) c q by (simp add: sched_ok_def)
qed

lemma sched_dequeue:
  assumes "sched_ok E obs ops" "obs oid = Some ob" "pending_operations ob = nxt # rest"
  shows "sched_ok E (obs(oid \<mapsto> ob\<lparr>pending_operations := rest\<rparr>)) ops"
proof -
  have c: "counters_ok (obs(oid \<mapsto> ob\<lparr>pending_operations := rest\<rparr>)) ops"
    using assms by (intro counters_ok_obj_upd[where ob = ob]) (auto simp: sched_ok_def)
  have q: "queues_ok (obs(oid \<mapsto> ob\<lparr>pending_operations := rest\<rparr>)) ops"
    using assms(2-) sched_okD(3)[OF assms(1)]
    by (intro queues_okI) (auto split: if_splits dest: queuedD queue_distinctD)
  show ?thesis using assms(1) c q by (simp add: sched_ok_def)
qed

lemma sched_release:
  assumes "sched_ok E obs ops" "ops p = Some op" "job_started op" "obs (object op) = Some ob"
  shows "sched_ok (E - {p}) (obs(object op \<mapsto> ob\<lparr>num_active_operations := num_active_operations ob - 1\<rparr>))
           (ops(p := None))"
proof -
  have c: "counters_ok (obs(object op \<mapsto> ob\<lparr>num_active_operations := num_active_operations ob - 1\<rparr>))
           (ops(p := None))"
    using assms by (intro counters_release) (auto simp: sched_ok_def)
  have q: "queues_ok (obs(object op \<mapsto> ob\<lparr>num_active_operations := num_active_operations ob - 1\<rparr>))
           (ops(p := None))"
    using assms(2-) sched_okD(3)[OF assms(1)]
    by (intro queues_okI) (auto split: if_splits dest: queuedD queue_distinctD)
  have s: "started_ok (ops(p := None))"
    using assms unfolding sched_ok_def started_ok_def by auto
  have pd: "pending_dependencies op = []"
    using assms unfolding sched_ok_def started_ok_def by auto
  have pr: "probes_ok (E - {p}) (ops(p := None))"
    using assms(2-) pd sched_okD(5)[OF assms(1)]
    by (intro probes_okI) (fastforce split: if_splits dest: probe_pendingD probe_blockedD)+
  show ?thesis using assms(1) c q s pr by (simp add: sched_ok_def)
qed

lemma sched_new:
  assumes "sched_ok E obs ops" "ops p = None"
  shows "sched_ok E obs (ops(p \<mapsto> \<lparr>object = oid, job_started = False,
           pending_dependencies = [], cleanup = cl, blocked_operation = None\<rparr>))"
proof -
  have r: "running (ops(p \<mapsto> \<lparr>object = oid, job_started = False,
           pending_dependencies = [], cleanup = cl, blocked_operation = None\<rparr>)) x = running ops x" for x
    using assms(2) by (auto simp: running_upd running_mem)
  have c: "counters_ok obs (ops(p \<mapsto> \<lparr>object = oid, job_started = False,
           pending_dependencies = [], cleanup = cl, blocked_operation = None\<rparr>))"
    using assms(1) unfolding sched_ok_def counters_ok_def r by simp
  have q: "queues_ok obs (ops(p \<mapsto> \<lparr>object = oid, job_started = False,
           pending_dependencies = [], cleanup = cl, blocked_operation = None\<rparr>))"
    using assms(2-) sched_okD(3)[OF assms(1)]
    by (intro queues_okI) (auto split: if_splits dest: queuedD queue_distinctD)
  have s: "started_ok (ops(p \<mapsto> \<lparr>object = oid, job_started = False,
           pending_dependencies = [], cleanup = cl, blocked_operation = None\<rparr>))"
    using assms unfolding sched_ok_def started_ok_def by auto
  have pr: "probes_ok E (ops(p \<mapsto> \<lparr>object = oid, job_started = False,
           pending_dependencies = [], cleanup = cl, blocked_operation = None\<rparr>))"
    using assms(2-) sched_okD(5)[OF assms(1)]
    by (intro probes_okI) (fastforce split: if_splits dest: probe_pendingD probe_blockedD)+
  show ?thesis using assms(1) c q s pr by (simp add: sched_ok_def)
qed

lemma probes_weaken: "probes_ok E ops \<Longrightarrow> E \<subseteq> E' \<Longrightarrow> probes_ok E' ops"
  by (rule probes_okI) (blast dest: probe_pendingD probe_blockedD)+

lemma sched_weaken: "sched_ok E obs ops \<Longrightarrow> E \<subseteq> E' \<Longrightarrow> sched_ok E' obs ops"
  unfolding sched_ok_def using probes_weaken by blast

lemma probes_exempt_dead: "probes_ok E ops \<Longrightarrow> ops p = None \<Longrightarrow> probes_ok (E - {p}) ops"
  by (rule probes_okI) (fastforce dest: probe_pendingD probe_blockedD)+

lemma sched_exempt_dead: "sched_ok E obs ops \<Longrightarrow> ops p = None \<Longrightarrow> sched_ok (E - {p}) obs ops"
  unfolding sched_ok_def using probes_exempt_dead by blast

lemma running_same:
  assumes "ops p = Some op" "job_started op' = job_started op" "object op' = object op"
  shows "running (ops(p \<mapsto> op')) oid = running ops oid"
  using assms by (auto simp: running_upd running_mem)

lemma counters_same:
  assumes "counters_ok obs ops" "ops p = Some op" "job_started op' = job_started op"
    "object op' = object op"
  shows "counters_ok obs (ops(p \<mapsto> op'))"
proof -
  have "running (ops(p \<mapsto> op')) oid = running ops oid" for oid
    using assms(2-4) by (rule running_same)
  then show ?thesis using assms(1) unfolding counters_ok_def by simp
qed

lemma probes_upd:
  assumes "probes_ok E ops" "ops q = Some op" "blocked_operation op' = blocked_operation op"
    "\<And>b. blocked_operation op = Some b \<Longrightarrow> pending_dependencies op' = []"
    "set (pending_dependencies op) - X \<subseteq> set (pending_dependencies op')"
  shows "probes_ok (E \<union> X) (ops(q \<mapsto> op'))"
proof (rule probes_okI)
  fix p probe b
  assume live: "(ops(q \<mapsto> op')) p = Some probe" and bl: "blocked_operation probe = Some b"
  show "pending_dependencies probe = []"
  proof (cases "p = q")
    case True
    then have "probe = op'" using live by simp
    moreover from this have "blocked_operation op = Some b" using bl assms(3) by simp
    ultimately show ?thesis using assms(4) by simp
  next
    case False
    then show ?thesis using live bl assms(1) by (auto dest: probe_pendingD)
  qed
  assume ex: "p \<notin> E \<union> X"
  have old: "\<exists>probe0. ops p = Some probe0 \<and> blocked_operation probe0 = Some b"
    using live bl assms(2,3) by (cases "p = q") auto
  then obtain bo where bo: "ops b = Some bo" "p \<in> set (pending_dependencies bo)"
    using assms(1) ex by (auto dest: probe_blockedD)
  show "\<exists>bo. (ops(q \<mapsto> op')) b = Some bo \<and> p \<in> set (pending_dependencies bo)"
  proof (cases "b = q")
    case True
    then show ?thesis using bo assms(2,5) ex by auto
  next
    case False
    then show ?thesis using bo by auto
  qed
qed

lemma sched_arm:
  assumes "sched_ok E obs ops" "ops p = Some probe" "pending_dependencies probe = []"
    "ops self = Some me" "self \<noteq> p" "\<not> job_started me"
    "\<And>oid ob. obs oid = Some ob \<Longrightarrow> self \<notin> set (pending_operations ob)"
    "blocked_operation me = None"
  shows "sched_ok E obs (ops(p \<mapsto> probe\<lparr>blocked_operation := Some self\<rparr>,
           self \<mapsto> me\<lparr>pending_dependencies := p # pending_dependencies me\<rparr>))"
proof -
  let ?ops1 = "ops(p \<mapsto> probe\<lparr>blocked_operation := Some self\<rparr>)"
  let ?ops2 = "?ops1(self \<mapsto> me\<lparr>pending_dependencies := p # pending_dependencies me\<rparr>)"
  have f: "finite (dom ?ops2)" using sched_okD(1)[OF assms(1)] by simp
  have c1: "counters_ok obs ?ops1"
    using sched_okD(2)[OF assms(1)] assms(2) by (rule counters_same) simp_all
  have c: "counters_ok obs ?ops2"
    using c1 by (rule counters_same[where op = me]) (use assms in simp_all)
  have q: "queues_ok obs ?ops2"
    using assms(2-) sched_okD(3)[OF assms(1)]
    by (intro queues_okI) (auto split: if_splits dest: queuedD queue_distinctD)
  have s: "started_ok ?ops2"
    using assms(2-) sched_okD(4)[OF assms(1)] unfolding started_ok_def by auto
  have pr: "probes_ok E ?ops2"
  proof (rule probes_okI)
    fix q qo b
    assume live: "?ops2 q = Some qo" and bl: "blocked_operation qo = Some b"
    have qself: "q \<noteq> self" using live bl assms(8) by auto
    show "pending_dependencies qo = []"
    proof (cases "q = p")
      case True
      then show ?thesis using live assms(3,5) by auto
    next
      case False
      then show ?thesis
        using live bl qself sched_okD(5)[OF assms(1)] by (auto dest: probe_pendingD)
    qed
    assume ex: "q \<notin> E"
    show "\<exists>bo. ?ops2 b = Some bo \<and> q \<in> set (pending_dependencies bo)"
    proof (cases "q = p")
      case True
      then show ?thesis using live assms(5) bl by auto
    next
      case False
      then have old: "ops q = Some qo" using live qself by auto
      from probe_blockedD[OF sched_okD(5)[OF assms(1)] old bl ex]
      obtain bo where bo: "ops b = Some bo" "q \<in> set (pending_dependencies bo)" by blast
      have "b \<noteq> p" using bo assms(2,3) by auto
      then show ?thesis using bo assms(4) by (cases "b = self") auto
    qed
  qed
  show ?thesis using f c q s pr by (simp add: sched_ok_def)
qed

lemma sched_resolve:
  assumes "sched_ok E obs ops" "ops b = Some bo"
  shows "sched_ok (insert p E) obs
           (ops(b \<mapsto> bo\<lparr>pending_dependencies := remove1 p (pending_dependencies bo)\<rparr>))"
proof -
  let ?ops = "ops(b \<mapsto> bo\<lparr>pending_dependencies := remove1 p (pending_dependencies bo)\<rparr>)"
  have f: "finite (dom ?ops)" using sched_okD(1)[OF assms(1)] by simp
  have c: "counters_ok obs ?ops"
    using sched_okD(2)[OF assms(1)] assms(2) by (rule counters_same) simp_all
  have q: "queues_ok obs ?ops"
    using assms(2-) sched_okD(3)[OF assms(1)]
    by (intro queues_okI) (auto split: if_splits dest: queuedD queue_distinctD)
  have s: "started_ok ?ops"
    using assms(2-) sched_okD(4)[OF assms(1)] unfolding started_ok_def by auto
  have "probes_ok (E \<union> {p}) ?ops"
    using sched_okD(5)[OF assms(1)] assms(2)
  proof (rule probes_upd)
    show "\<And>b'. blocked_operation bo = Some b' \<Longrightarrow>
      pending_dependencies (bo\<lparr>pending_dependencies := remove1 p (pending_dependencies bo)\<rparr>) = []"
      using sched_okD(5)[OF assms(1)] assms(2) by (auto dest: probe_pendingD)
    show "set (pending_dependencies bo) - {p}
      \<subseteq> set (pending_dependencies
                (bo\<lparr>pending_dependencies := remove1 p (pending_dependencies bo)\<rparr>))"
    proof
      fix x
      assume "x \<in> set (pending_dependencies bo) - {p}"
      then have "x \<noteq> p" and "x \<in> set (pending_dependencies bo)" by auto
      then show "x \<in> set (pending_dependencies
                (bo\<lparr>pending_dependencies := remove1 p (pending_dependencies bo)\<rparr>))"
        by (simp add: in_set_remove1)
    qed
  qed simp
  then have pr: "probes_ok (insert p E) ?ops" by simp
  show ?thesis using f c q s pr by (simp add: sched_ok_def)
qed

lemma sched_subheap:
  assumes "sched_ok E obs ops" "\<And>oid. obs' oid = None \<or> obs' oid = obs oid"
  shows "sched_ok E obs' ops"
proof -
  have sub: "obs' oid = Some ob \<Longrightarrow> obs oid = Some ob" for oid ob
    using assms(2)[of oid] by auto
  have c: "counters_ok obs' ops"
    using sched_okD(2)[OF assms(1)] sub unfolding counters_ok_def by blast
  have q: "queues_ok obs' ops"
    using sched_okD(3)[OF assms(1)] sub
    by (intro queues_okI) (blast dest: queuedD queue_distinctD)+
  show ?thesis using assms(1) c q by (simp add: sched_ok_def)
qed

lemma sched_obj_same:
  assumes "sched_ok E obs ops" "obs oid = Some ob"
    "num_active_operations ob' = num_active_operations ob"
    "pending_operations ob' = pending_operations ob"
  shows "sched_ok E (obs(oid \<mapsto> ob')) ops"
proof -
  have c: "counters_ok (obs(oid \<mapsto> ob')) ops"
    using sched_okD(2)[OF assms(1)] assms(2,3) by (rule counters_ok_obj_upd)
  have q: "queues_ok (obs(oid \<mapsto> ob')) ops"
    using assms(2-) sched_okD(3)[OF assms(1)]
    by (intro queues_okI) (auto split: if_splits dest: queuedD queue_distinctD)
  show ?thesis using assms(1) c q by (simp add: sched_ok_def)
qed

lemma sched_obj_new:
  assumes "sched_ok E obs ops" "\<And>p op. ops p = Some op \<Longrightarrow> object op \<noteq> oid"
  shows "sched_ok E (obs(oid \<mapsto> \<lparr>handle = h, cancellable = False,
           num_active_operations = 0, pending_operations = []\<rparr>)) ops"
proof -
  have r: "running ops oid = {}" using assms(2) by (auto simp: running_def)
  have c: "counters_ok (obs(oid \<mapsto> \<lparr>handle = h, cancellable = False,
           num_active_operations = 0, pending_operations = []\<rparr>)) ops"
    using sched_okD(2)[OF assms(1)] r unfolding counters_ok_def by auto
  have q: "queues_ok (obs(oid \<mapsto> \<lparr>handle = h, cancellable = False,
           num_active_operations = 0, pending_operations = []\<rparr>)) ops"
    using sched_okD(3)[OF assms(1)]
    by (intro queues_okI) (auto split: if_splits dest: queuedD queue_distinctD)
  show ?thesis using assms(1) c q by (simp add: sched_ok_def)
qed

lemma idle_when_unreferenced:
  assumes "sched_ok E obs ops" "obs oid = Some ob" "\<And>p op. ops p = Some op \<Longrightarrow> object op \<noteq> oid"
  shows "num_active_operations ob = 0" "pending_operations ob = []"
proof -
  have r: "running ops oid = {}" using assms(3) by (auto simp: running_def)
  show "num_active_operations ob = 0"
    using sched_okD(2)[OF assms(1)] assms(2) r unfolding counters_ok_def by auto
  show "pending_operations ob = []"
  proof (cases "pending_operations ob")
    case (Cons p rest)
    then have "p \<in> set (pending_operations ob)" by simp
    from queuedD[OF sched_okD(3)[OF assms(1)] assms(2) this] assms(3) show ?thesis by blast
  qed simp
qed

lemma invariantD:
  assumes "invariant E s"
  shows "sched_ok E (objects s) (operations s)"
    "registry_ok (object_by_handle s) (objects s)" "bounds s"
    "manager_freed s \<Longrightarrow> object_by_handle s = []"
  using assms by (simp_all add: invariant_def)

lemma registry_okD:
  assumes "registry_ok tbl obs"
  shows "distinct (map fst tbl)"
    "\<And>h oid. (h, oid) \<in> set tbl \<Longrightarrow> \<exists>ob. obs oid = Some ob \<and> handle ob = h"
    "\<And>oid ob. obs oid = Some ob \<Longrightarrow> (handle ob, oid) \<in> set tbl"
  using assms unfolding registry_ok_def by blast+

lemma registry_okI:
  assumes "distinct (map fst tbl)"
    "\<And>h oid. (h, oid) \<in> set tbl \<Longrightarrow> \<exists>ob. obs oid = Some ob \<and> handle ob = h"
    "\<And>oid ob. obs oid = Some ob \<Longrightarrow> (handle ob, oid) \<in> set tbl"
  shows "registry_ok tbl obs"
  using assms unfolding registry_ok_def by blast

lemma registry_obj_same:
  assumes "registry_ok tbl obs" "obs oid = Some ob" "handle ob' = handle ob"
  shows "registry_ok tbl (obs(oid \<mapsto> ob'))"
proof (rule registry_okI)
  show "distinct (map fst tbl)" using assms(1) by (rule registry_okD)
next
  fix h x
  assume "(h, x) \<in> set tbl"
  from registry_okD(2)[OF assms(1) this] assms(2,3)
  show "\<exists>ob. (obs(oid \<mapsto> ob')) x = Some ob \<and> handle ob = h" by (cases "x = oid") auto
next
  fix x ob0
  assume "(obs(oid \<mapsto> ob')) x = Some ob0"
  then show "(handle ob0, x) \<in> set tbl"
    using registry_okD(3)[OF assms(1)] assms(2,3) by (cases "x = oid") auto
qed

lemma bounds_opD:
  "bounds s \<Longrightarrow> operations s p = Some op \<Longrightarrow> p < next_operation s \<and> object op < next_object s"
  unfolding bounds_def by blast

lemma bounds_objD: "bounds s \<Longrightarrow> objects s oid = Some ob \<Longrightarrow> oid < next_object s"
  unfolding bounds_def by blast

lemma bounds_fresh_op: "bounds s \<Longrightarrow> operations s (next_operation s) = None"
  by (cases "operations s (next_operation s)") (auto dest: bounds_opD)

lemma bounds_fresh_obj: "bounds s \<Longrightarrow> objects s (next_object s) = None"
  by (cases "objects s (next_object s)") (auto dest: bounds_objD)

text \<open>Effects of the scheduling primitives\<close>

lemma schedule_eq:
  assumes "operations s p = Some op" "objects s (object op) = Some ob"
  shows "gum_v8_object_operation_schedule p s =
           Inr (s\<lparr>objects := (objects s)(object op \<mapsto>
                       ob\<lparr>num_active_operations := num_active_operations ob + 1\<rparr>),
                   operations := (operations s)(p \<mapsto> op\<lparr>job_started := True\<rparr>),
                   trace := trace s @ [Increment (object op), JobStart p]\<rparr>)"
  using assms
  by (simp add: gum_v8_object_operation_schedule_def gum_script_job_start_on_js_thread_def
      log_action_def)

lemma try_schedule_eq:
  assumes "operations s p = Some op" and "objects s (object op) = Some ob"
  shows "gum_v8_object_operation_try_schedule_when_idle p s =
           (if pending_dependencies op \<noteq> [] then Inr s
            else if num_active_operations ob = 0
            then Inr (s\<lparr>objects := (objects s)(object op \<mapsto> ob\<lparr>num_active_operations := 1\<rparr>),
                         operations := (operations s)(p \<mapsto> op\<lparr>job_started := True\<rparr>),
                         trace := trace s @ [Increment (object op), JobStart p]\<rparr>)
            else Inr (s\<lparr>objects := (objects s)(object op \<mapsto>
                              ob\<lparr>pending_operations := pending_operations ob @ [p]\<rparr>),
                         trace := trace s @ [PushTail (object op) p]\<rparr>))"
  using assms
  by (simp add: gum_v8_object_operation_try_schedule_when_idle_def schedule_eq log_action_def)

lemma invariant_start:
  assumes "invariant E s" "operations s p = Some op" "\<not> job_started op"
    "pending_dependencies op = []" "objects s (object op) = Some ob"
    "p \<notin> set (pending_operations ob)"
  shows "invariant E (s\<lparr>objects := (objects s)(object op \<mapsto>
                       ob\<lparr>num_active_operations := num_active_operations ob + 1\<rparr>),
                   operations := (operations s)(p \<mapsto> op\<lparr>job_started := True\<rparr>),
                   trace := t\<rparr>)"
proof -
  have "sched_ok E ((objects s)(object op \<mapsto>
                       ob\<lparr>num_active_operations := num_active_operations ob + 1\<rparr>))
          ((operations s)(p \<mapsto> op\<lparr>job_started := True\<rparr>))"
    using invariantD(1)[OF assms(1)] assms(2-) by (rule sched_start)
  moreover have "registry_ok (object_by_handle s) ((objects s)(object op \<mapsto>
                       ob\<lparr>num_active_operations := num_active_operations ob + 1\<rparr>))"
    using invariantD(2)[OF assms(1)] assms(5) by (rule registry_obj_same) simp
  moreover have "bounds (s\<lparr>objects := (objects s)(object op \<mapsto>
                       ob\<lparr>num_active_operations := num_active_operations ob + 1\<rparr>),
                   operations := (operations s)(p \<mapsto> op\<lparr>job_started := True\<rparr>),
                   trace := t\<rparr>)"
    using invariantD(3)[OF assms(1)] assms(2,5) unfolding bounds_def by auto
  ultimately show ?thesis using invariantD(4)[OF assms(1)] by (simp add: invariant_def)
qed

lemma invariant_enqueue:
  assumes "invariant E s" "operations s p = Some op" "\<not> job_started op"
    "pending_dependencies op = []" "objects s (object op) = Some ob"
    "p \<notin> set (pending_operations ob)"
  shows "invariant E (s\<lparr>objects := (objects s)(object op \<mapsto>
                       ob\<lparr>pending_operations := pending_operations ob @ [p]\<rparr>),
                   trace := t\<rparr>)"
proof -
  have "sched_ok E ((objects s)(object op \<mapsto>
                       ob\<lparr>pending_operations := pending_operations ob @ [p]\<rparr>)) (operations s)"
    using invariantD(1)[OF assms(1)] assms(2-) by (rule sched_enqueue)
  moreover have "registry_ok (object_by_handle s) ((objects s)(object op \<mapsto>
                       ob\<lparr>pending_operations := pending_operations ob @ [p]\<rparr>))"
    using invariantD(2)[OF assms(1)] assms(5) by (rule registry_obj_same) simp
  moreover have "bounds (s\<lparr>objects := (objects s)(object op \<mapsto>
                       ob\<lparr>pending_operations := pending_operations ob @ [p]\<rparr>),
                   trace := t\<rparr>)"
    using invariantD(3)[OF assms(1)] assms(2,5) unfolding bounds_def by auto
  ultimately show ?thesis using invariantD(4)[OF assms(1)] by (simp add: invariant_def)
qed

lemma schedule_invariant:
  assumes "invariant E s" "operations s p = Some op" "\<not> job_started op"
    "pending_dependencies op = []"
    "\<And>ob. objects s (object op) = Some ob \<Longrightarrow> p \<notin> set (pending_operations ob)"
    "gum_v8_object_operation_schedule p s = Inr s'"
  shows "invariant E s'"
proof (cases "objects s (object op)")
  case None
  then show ?thesis using assms(2,6) by (simp add: gum_v8_object_operation_schedule_def)
next
  case (Some ob)
  have "s' = s\<lparr>objects := (objects s)(object op \<mapsto>
                       ob\<lparr>num_active_operations := num_active_operations ob + 1\<rparr>),
                   operations := (operations s)(p \<mapsto> op\<lparr>job_started := True\<rparr>),
                   trace := trace s @ [Increment (object op), JobStart p]\<rparr>"
    using assms(6) schedule_eq[OF assms(2) Some] by simp
  then show ?thesis using invariant_start[OF assms(1-4) Some assms(5)[OF Some]] by simp
qed

lemma try_schedule_invariant:
  assumes "invariant E s" "operations s p = Some op" "\<not> job_started op"
    "\<And>ob. objects s (object op) = Some ob \<Longrightarrow> p \<notin> set (pending_operations ob)"
    "gum_v8_object_operation_try_schedule_when_idle p s = Inr s'"
  shows "invariant E s'"
proof (cases "pending_dependencies op = []")
  case False
  then show ?thesis
    using assms(1,2,5) by (simp add: gum_v8_object_operation_try_schedule_when_idle_def)
next
  case pd: True
  show ?thesis
  proof (cases "objects s (object op)")
    case None
    then show ?thesis
      using assms(2,5) pd by (simp add: gum_v8_object_operation_try_schedule_when_idle_def)
  next
    case (Some ob)
    show ?thesis
    proof (cases "num_active_operations ob = 0")
      case True
      then have "gum_v8_object_operation_schedule p s = Inr s'"
        using assms(2,5) pd Some
        by (simp add: gum_v8_object_operation_try_schedule_when_idle_def)
      then show ?thesis using schedule_invariant[OF assms(1-3) pd assms(4)] by simp
    next
      case False
      then have "s' = s\<lparr>objects := (objects s)(object op \<mapsto>
                              ob\<lparr>pending_operations := pending_operations ob @ [p]\<rparr>),
                         trace := trace s @ [PushTail (object op) p]\<rparr>"
        using assms(5) try_schedule_eq[OF assms(2) Some] pd by simp
      then show ?thesis
        using invariant_enqueue[OF assms(1-3) pd Some assms(4)[OF Some]] by simp
    qed
  qed
qed

text \<open>What try-schedule leaves alone\<close>

lemma try_schedule_frame:
  assumes "gum_v8_object_operation_try_schedule_when_idle p s = Inr s'"
  shows "\<And>q. q \<noteq> p \<Longrightarrow> operations s' q = operations s q"
    and "next_operation s' = next_operation s"
    and "usage_count s' = usage_count s"
    and "\<And>oid. objects s' oid = None \<longleftrightarrow> objects s oid = None"
  using assms
  by (auto simp: gum_v8_object_operation_try_schedule_when_idle_def
      gum_v8_object_operation_schedule_def gum_script_job_start_on_js_thread_def log_action_def
      split: option.splits if_splits)

lemma operation_free_plain:
  assumes "operations s p = Some op" "objects s (object op) = Some ob"
    "pending_dependencies op = []"
    "num_active_operations ob - 1 \<noteq> 0 \<or> pending_operations ob = []"
  shows "gum_v8_object_operation_free p s =
     Inr (s\<lparr>objects := (objects s)(object op \<mapsto>
                ob\<lparr>num_active_operations := num_active_operations ob - 1\<rparr>),
            operations := (operations s)(p := None),
            usage_count := usage_count s - 1,
            trace := trace s @ (if cleanup op then [Cleanup p] else []) @
              [DeleteWrapper p, DeleteCallback p, Decrement (object op), Unpin]\<rparr>)"
  using assms
  by (auto simp: gum_v8_object_operation_free_def log_action_def gum_v8_core_unpin_def Let_def
      intro!: state.equality)

lemma operation_free_pop:
  assumes "operations s p = Some op" "objects s (object op) = Some ob"
    "pending_dependencies op = []"
    "num_active_operations ob - 1 = 0" "pending_operations ob = nxt # rest"
    "operations s nxt = Some nop" "object nop = object op" "nxt \<noteq> p"
  shows "gum_v8_object_operation_free p s =
     Inr (s\<lparr>objects := (objects s)(object op \<mapsto>
                ob\<lparr>pending_operations := rest, num_active_operations := 1\<rparr>),
            operations := (operations s)(nxt \<mapsto> nop\<lparr>job_started := True\<rparr>, p := None),
            usage_count := usage_count s - 1,
            trace := trace s @ (if cleanup op then [Cleanup p] else []) @
              [DeleteWrapper p, DeleteCallback p, Decrement (object op),
               PopHead (object op) nxt, Increment (object op), JobStart nxt, Unpin]\<rparr>)"
  using assms
  by (auto simp: gum_v8_object_operation_free_def log_action_def gum_v8_core_unpin_def Let_def
      gum_v8_object_operation_schedule_def gum_script_job_start_on_js_thread_def
      intro!: state.equality)

lemma bounds_shrink:
  assumes "bounds s"
    "\<And>oid. objects s' oid \<noteq> None \<Longrightarrow> objects s oid \<noteq> None"
    "\<And>q qo. operations s' q = Some qo \<Longrightarrow> \<exists>qo0. operations s q = Some qo0 \<and> object qo0 = object qo"
    "module_operations s' = module_operations s"
    "next_object s' = next_object s" "next_operation s' = next_operation s"
    "next_module_operation s' = next_module_operation s"
  shows "bounds s'"
  unfolding bounds_def
proof (intro conjI allI impI)
  fix oid ob assume "objects s' oid = Some ob"
  then show "oid < next_object s'"
    using assms(2)[of oid] assms(1,5) by (auto dest: bounds_objD)
next
  fix q qo assume a: "operations s' q = Some qo"
  from assms(3)[OF a] obtain qo0 where "operations s q = Some qo0" "object qo0 = object qo" by blast
  then show "q < next_operation s'" "object qo < next_object s'"
    using bounds_opD[OF assms(1), of q qo0] assms(5,6) by auto
next
  fix m mo assume "module_operations s' m = Some mo"
  then show "m < next_module_operation s'"
    using assms(1,4,7) unfolding bounds_def by auto
qed

lemma invariantI:
  assumes "sched_ok E (objects s) (operations s)"
    "registry_ok (object_by_handle s) (objects s)" "bounds s"
    "manager_freed s \<Longrightarrow> object_by_handle s = []"
  shows "invariant E s"
  using assms by (auto simp: invariant_def)

lemma operation_free_invariant:
  assumes inv: "invariant E s" and live: "operations s p = Some op" and st: "job_started op"
    and res: "gum_v8_object_operation_free p s = Inr s'"
  shows "invariant (E - {p}) s'"
proof (cases "objects s (object op)")
  case None
  then show ?thesis using live res by (simp add: gum_v8_object_operation_free_def)
next
  case (Some ob)
  note sch = invariantD(1)[OF inv]
  have pd: "pending_dependencies op = []"
    using sched_okD(4)[OF sch] live st unfolding started_ok_def by blast
  let ?X = "object op"
  let ?ob1 = "ob\<lparr>num_active_operations := num_active_operations ob - 1\<rparr>"
  have rel: "sched_ok (E - {p}) ((objects s)(?X \<mapsto> ?ob1)) ((operations s)(p := None))"
    using sch live st Some by (rule sched_release)
  show ?thesis
  proof (cases "num_active_operations ob - 1 = 0 \<and> pending_operations ob \<noteq> []")
    case False
    then have c: "num_active_operations ob - 1 \<noteq> 0 \<or> pending_operations ob = []" by blast
    have s': "s' = s\<lparr>objects := (objects s)(?X \<mapsto> ?ob1),
            operations := (operations s)(p := None),
            usage_count := usage_count s - 1,
            trace := trace s @ (if cleanup op then [Cleanup p] else []) @
              [DeleteWrapper p, DeleteCallback p, Decrement (object op), Unpin]\<rparr>"
      using res operation_free_plain[OF live Some pd c] by simp
    show ?thesis
    proof (rule invariantI)
      show "sched_ok (E - {p}) (objects s') (operations s')" using rel s' by simp
      show "registry_ok (object_by_handle s') (objects s')"
        using registry_obj_same[OF invariantD(2)[OF inv] Some, of ?ob1] s' by simp
      show "bounds s'"
        using invariantD(3)[OF inv] by (rule bounds_shrink) (use s' Some in \<open>auto split: if_splits\<close>)
      show "manager_freed s' \<Longrightarrow> object_by_handle s' = []"
        using invariantD(4)[OF inv] s' by simp
    qed
  next
    case True
    then obtain nxt rest where q: "pending_operations ob = nxt # rest"
      by (cases "pending_operations ob") auto
    from True have n0: "num_active_operations ob - 1 = 0" by simp
    have "nxt \<in> set (pending_operations ob)" using q by simp
    from queuedD[OF sched_okD(3)[OF sch] Some this]
    obtain nop where nop: "operations s nxt = Some nop" "object nop = ?X"
      "\<not> job_started nop" "pending_dependencies nop = []" by blast
    have ne: "nxt \<noteq> p" using nop live st by auto
    have nr: "nxt \<notin> set rest"
      using queue_distinctD[OF sched_okD(3)[OF sch] Some] q by simp
    have s': "s' = s\<lparr>objects := (objects s)(?X \<mapsto>
                ob\<lparr>pending_operations := rest, num_active_operations := 1\<rparr>),
            operations := (operations s)(nxt \<mapsto> nop\<lparr>job_started := True\<rparr>, p := None),
            usage_count := usage_count s - 1,
            trace := trace s @ (if cleanup op then [Cleanup p] else []) @
              [DeleteWrapper p, DeleteCallback p, Decrement (object op),
               PopHead (object op) nxt, Increment (object op), JobStart nxt, Unpin]\<rparr>"
      using res operation_free_pop[OF live Some pd n0 q nop(1,2) ne] by simp
    let ?ob2 = "?ob1\<lparr>pending_operations := rest\<rparr>"
    have deq: "sched_ok (E - {p}) (((objects s)(?X \<mapsto> ?ob1))(?X \<mapsto> ?ob2)) ((operations s)(p := None))"
      using rel by (rule sched_dequeue[where nxt = nxt]) (simp_all add: q)
    have "sched_ok (E - {p}) ((((objects s)(?X \<mapsto> ?ob1))(?X \<mapsto> ?ob2))(object nop \<mapsto>
              ?ob2\<lparr>num_active_operations := num_active_operations ?ob2 + 1\<rparr>))
            (((operations s)(p := None))(nxt \<mapsto> nop\<lparr>job_started := True\<rparr>))"
      using deq by (rule sched_start) (use nop ne nr in auto)
    moreover have "(((objects s)(?X \<mapsto> ?ob1))(?X \<mapsto> ?ob2))(object nop \<mapsto>
              ?ob2\<lparr>num_active_operations := num_active_operations ?ob2 + 1\<rparr>) = objects s'"
      using s' nop(2) n0 by simp
    moreover have "((operations s)(p := None))(nxt \<mapsto> nop\<lparr>job_started := True\<rparr>) = operations s'"
      using s' ne by (auto simp: fun_eq_iff)
    ultimately have sch': "sched_ok (E - {p}) (objects s') (operations s')" by simp
    show ?thesis
    proof (rule invariantI)
      show "sched_ok (E - {p}) (objects s') (operations s')" by (rule sch')
      show "registry_ok (object_by_handle s') (objects s')"
        using registry_obj_same[OF invariantD(2)[OF inv] Some,
            of "ob\<lparr>pending_operations := rest, num_active_operations := 1\<rparr>"] s' by simp
      show "bounds s'"
        using invariantD(3)[OF inv]
        by (rule bounds_shrink) (use s' Some nop in \<open>auto split: if_splits\<close>)
      show "manager_freed s' \<Longrightarrow> object_by_handle s' = []"
        using invariantD(4)[OF inv] s' by simp
    qed
  qed
qed

lemma operation_new_eq:
  assumes "objects s oid = Some ob"
  shows "gum_v8_object_operation_new oid cl s =
     Inr (next_operation s,
          s\<lparr>operations := (operations s)(next_operation s \<mapsto>
                 \<lparr>object = oid, job_started = False, pending_dependencies = [],
                  cleanup = cl, blocked_operation = None\<rparr>),
            next_operation := Suc (next_operation s),
            usage_count := usage_count s + 1,
            trace := trace s @ [Pin]\<rparr>)"
  using assms
  by (auto simp: gum_v8_object_operation_new_def gum_v8_core_pin_def log_action_def Let_def
      intro!: state.equality)

lemma operation_new_invariant:
  assumes "invariant E s" "gum_v8_object_operation_new oid cl s = Inr (p, s')"
  shows "invariant E s'"
proof (cases "objects s oid")
  case None
  then show ?thesis using assms(2) by (simp add: gum_v8_object_operation_new_def)
next
  case (Some ob)
  have "Inr (p, s') = gum_v8_object_operation_new oid cl s" using assms(2) by simp
  also have "\<dots> = Inr (next_operation s,
          s\<lparr>operations := (operations s)(next_operation s \<mapsto>
                 \<lparr>object = oid, job_started = False, pending_dependencies = [],
                  cleanup = cl, blocked_operation = None\<rparr>),
            next_operation := Suc (next_operation s),
            usage_count := usage_count s + 1,
            trace := trace s @ [Pin]\<rparr>)"
    by (rule operation_new_eq[OF Some])
  finally have s': "s' = s\<lparr>operations := (operations s)(next_operation s \<mapsto>
                 \<lparr>object = oid, job_started = False, pending_dependencies = [],
                  cleanup = cl, blocked_operation = None\<rparr>),
            next_operation := Suc (next_operation s),
            usage_count := usage_count s + 1,
            trace := trace s @ [Pin]\<rparr>"
    by simp
  note b = invariantD(3)[OF assms(1)]
  show ?thesis
  proof (rule invariantI)
    show "sched_ok E (objects s') (operations s')"
      using sched_new[OF invariantD(1)[OF assms(1)] bounds_fresh_op[OF b]] s' by simp
    show "registry_ok (object_by_handle s') (objects s')"
      using invariantD(2)[OF assms(1)] s' by simp
    show "bounds s'"
      using b bounds_objD[OF b Some] unfolding bounds_def s'
      by (auto simp: less_Suc_eq split: if_splits)
    show "manager_freed s' \<Longrightarrow> object_by_handle s' = []"
      using invariantD(4)[OF assms(1)] s' by simp
  qed
qed

text \<open>One round of the dependency loop\<close>

lemma schedule_when_idle_busy:
  assumes "objects s d = Some dep" "num_active_operations dep \<noteq> 0"
    "operations s self = Some me" "self \<noteq> next_operation s"
  shows "gum_v8_object_operation_schedule_when_idle self (Some (d # rest)) s =
         gum_v8_object_operation_schedule_when_idle self (Some rest) (arm_probe self d dep me s)"
proof -
  have gt: "0 < num_active_operations dep" using assms(2) by (simp add: word_gt_0)
  show ?thesis
    using assms gt
    apply (simp add: gum_v8_object_operation_new_def gum_v8_core_pin_def log_action_def Let_def
        gum_v8_object_operation_schedule_when_idle_no_dependencies_def
        gum_v8_object_operation_try_schedule_when_idle_def arm_probe_def)
    apply (rule arg_cong[where f = "gum_v8_object_operation_schedule_when_idle self (Some rest)"])
    apply (rule state.equality)
    apply (simp_all add: fun_upd_twist)
    done
qed

lemma schedule_when_idle_idle:
  assumes "objects s d = Some dep" "num_active_operations dep = 0"
  shows "gum_v8_object_operation_schedule_when_idle self (Some (d # rest)) s =
         gum_v8_object_operation_schedule_when_idle self (Some rest) s"
  using assms by simp

lemma schedule_when_idle_dangling:
  assumes "objects s d = None"
  shows "gum_v8_object_operation_schedule_when_idle self (Some (d # rest)) s = Inl InvalidAccess"
  using assms by simp

lemma arm_probe_invariant:
  assumes inv: "invariant E s" and dep: "objects s d = Some dep"
    and me: "operations s self = Some me" "\<not> job_started me" "blocked_operation me = None"
    and unq: "\<And>oid ob. objects s oid = Some ob \<Longrightarrow> self \<notin> set (pending_operations ob)"
  shows "invariant E (arm_probe self d dep me s)"
proof -
  let ?n = "next_operation s"
  let ?fresh = "\<lparr>object = d, job_started = False, pending_dependencies = [], cleanup = False,
            blocked_operation = None\<rparr>"
  let ?probe = "\<lparr>object = d, job_started = False, pending_dependencies = [], cleanup = False,
            blocked_operation = Some self\<rparr>"
  note b = invariantD(3)[OF inv]
  note sch = invariantD(1)[OF inv]
  have fresh: "operations s ?n = None" by (rule bounds_fresh_op[OF b])
  have ne: "self \<noteq> ?n" using me(1) fresh by auto
  have nq: "?n \<notin> set (pending_operations dep)"
    using queuedD[OF sched_okD(3)[OF sch] dep, of ?n] fresh by auto
  have s1: "sched_ok E (objects s) ((operations s)(?n \<mapsto> ?fresh))"
    using sch fresh by (rule sched_new)
  have s2: "sched_ok E (objects s) (((operations s)(?n \<mapsto> ?fresh))(?n \<mapsto>
              ?fresh\<lparr>blocked_operation := Some self\<rparr>,
              self \<mapsto> me\<lparr>pending_dependencies := ?n # pending_dependencies me\<rparr>))"
    using s1 by (rule sched_arm) (use me ne unq in auto)
  let ?ops = "(operations s)(?n \<mapsto> ?probe,
              self \<mapsto> me\<lparr>pending_dependencies := ?n # pending_dependencies me\<rparr>)"
  have s2': "sched_ok E (objects s) ?ops" using s2 by simp
  have s3: "sched_ok E ((objects s)(object ?probe \<mapsto>
              dep\<lparr>pending_operations := pending_operations dep @ [?n]\<rparr>)) ?ops"
    using s2' by (rule sched_enqueue) (use ne dep nq in auto)
  show ?thesis
  proof (rule invariantI)
    show "sched_ok E (objects (arm_probe self d dep me s)) (operations (arm_probe self d dep me s))"
      using s3 by (simp add: arm_probe_def)
    show "registry_ok (object_by_handle (arm_probe self d dep me s))
            (objects (arm_probe self d dep me s))"
      using registry_obj_same[OF invariantD(2)[OF inv] dep,
          of "dep\<lparr>pending_operations := pending_operations dep @ [?n]\<rparr>"]
      by (simp add: arm_probe_def)
    show "bounds (arm_probe self d dep me s)"
      using b bounds_objD[OF b dep] bounds_opD[OF b me(1)] unfolding bounds_def arm_probe_def
      by (auto simp: less_Suc_eq split: if_splits)
    show "manager_freed (arm_probe self d dep me s) \<Longrightarrow>
            object_by_handle (arm_probe self d dep me s) = []"
      using invariantD(4)[OF inv] by (simp add: arm_probe_def)
  qed
qed

lemma schedule_when_idle_invariant:
  assumes "invariant E s" "operations s self = Some me" "\<not> job_started me"
    "blocked_operation me = None"
    "\<And>oid ob. objects s oid = Some ob \<Longrightarrow> self \<notin> set (pending_operations ob)"
    "gum_v8_object_operation_schedule_when_idle self (Some ds) s = Inr s'"
  shows "invariant E s'"
  using assms
proof (induction ds arbitrary: s me)
  case Nil
  then show ?case using try_schedule_invariant[of E s self me s'] by simp
next
  case (Cons d ds)
  show ?case
  proof (cases "objects s d")
    case None
    then show ?thesis using Cons.prems(6) by simp
  next
    case (Some dep)
    show ?thesis
    proof (cases "num_active_operations dep = 0")
      case True
      then have "gum_v8_object_operation_schedule_when_idle self (Some ds) s = Inr s'"
        using Cons.prems(6) Some by simp
      then show ?thesis using Cons.IH[OF Cons.prems(1-5)] by simp
    next
      case False
      note b = invariantD(3)[OF Cons.prems(1)]
      have ne: "self \<noteq> next_operation s"
        using Cons.prems(2) bounds_fresh_op[OF b] by auto
      let ?s1 = "arm_probe self d dep me s"
      have r: "gum_v8_object_operation_schedule_when_idle self (Some ds) ?s1 = Inr s'"
        using Cons.prems(6) schedule_when_idle_busy[OF Some False Cons.prems(2) ne] by simp
      have i1: "invariant E ?s1"
        using Cons.prems(1) Some Cons.prems(2-5) by (rule arm_probe_invariant)
      have me1: "operations ?s1 self =
          Some (me\<lparr>pending_dependencies := next_operation s # pending_dependencies me\<rparr>)"
        by (simp add: arm_probe_def)
      have unq1: "\<And>oid ob. objects ?s1 oid = Some ob \<Longrightarrow> self \<notin> set (pending_operations ob)"
        using Cons.prems(5) Some ne by (auto simp: arm_probe_def split: if_splits)
      show ?thesis
        using Cons.IH[OF i1 me1 _ _ unq1 r] Cons.prems(3,4) by simp
    qed
  qed
qed

lemma schedule_when_idle_null_invariant:
  assumes "invariant E s" "operations s self = Some me" "\<not> job_started me"
    "\<And>ob. objects s (object me) = Some ob \<Longrightarrow> self \<notin> set (pending_operations ob)"
    "gum_v8_object_operation_schedule_when_idle self None s = Inr s'"
  shows "invariant E s'"
  using assms try_schedule_invariant[of E s self me s'] by simp

lemma perform_invariant:
  assumes inv: "invariant {} s" and live: "operations s p = Some probe"
    and st: "job_started probe" and bl: "blocked_operation probe = Some b"
    and res: "gum_v8_try_schedule_if_idle_operation_perform p s = Inr s'"
  shows "invariant {} s'"
proof -
  note sch = invariantD(1)[OF inv]
  from probe_blockedD[OF sched_okD(5)[OF sch] live bl]
  obtain bo where bo: "operations s b = Some bo" "p \<in> set (pending_dependencies bo)" by auto
  have pd: "pending_dependencies probe = []"
    using probe_pendingD[OF sched_okD(5)[OF sch] live bl] .
  have ne: "b \<noteq> p" using bo live pd by auto
  have nst: "\<not> job_started bo"
    using sched_okD(4)[OF sch] bo unfolding started_ok_def by fastforce
  have unq: "\<And>oid ob. objects s oid = Some ob \<Longrightarrow> b \<notin> set (pending_operations ob)"
    using queuedD[OF sched_okD(3)[OF sch]] bo by fastforce
  let ?bo' = "bo\<lparr>pending_dependencies := remove1 p (pending_dependencies bo)\<rparr>"
  let ?s1 = "s\<lparr>operations := (operations s)(b \<mapsto> ?bo')\<rparr>"
  have i1: "invariant {p} ?s1"
  proof (rule invariantI)
    show "sched_ok {p} (objects ?s1) (operations ?s1)"
      using sched_resolve[OF sch bo(1), of p] by simp
    show "registry_ok (object_by_handle ?s1) (objects ?s1)"
      using invariantD(2)[OF inv] by simp
    show "bounds ?s1"
      using invariantD(3)[OF inv]
      by (rule bounds_shrink) (use bo in \<open>auto split: if_splits\<close>)
    show "manager_freed ?s1 \<Longrightarrow> object_by_handle ?s1 = []"
      using invariantD(4)[OF inv] by simp
  qed
  from res obtain s2 where
    s2: "gum_v8_object_operation_try_schedule_when_idle b ?s1 = Inr s2"
    and fin: "gum_v8_object_operation_free p s2 = Inr s'"
    using live bl bo(1)
    by (auto simp: gum_v8_try_schedule_if_idle_operation_perform_def Let_def
        gum_v8_object_operation_finish_def split: sum.splits)
  have i2: "invariant {p} s2"
    using i1 _ _ _ s2
  proof (rule try_schedule_invariant)
    show "operations ?s1 b = Some ?bo'" by simp
    show "\<not> job_started ?bo'" using nst by simp
    show "\<And>ob. objects ?s1 (object ?bo') = Some ob \<Longrightarrow> b \<notin> set (pending_operations ob)"
      using unq by simp
  qed
  have "operations s2 p = Some probe"
    using try_schedule_frame(1)[OF s2, of p] ne live by simp
  from operation_free_invariant[OF i2 this st fin] show ?thesis by simp
qed

lemma cancel_object_eq:
  "objects s oid = Some ob \<Longrightarrow>
     cancel_object oid s = Inr (s\<lparr>objects := (objects s)(oid \<mapsto> ob\<lparr>cancellable := True\<rparr>)\<rparr>)"
  by (simp add: cancel_object_def)

lemma bounds_same:
  assumes "bounds s"
    "\<And>oid. objects s' oid \<noteq> None \<Longrightarrow> objects s oid \<noteq> None"
    "operations s' = operations s" "module_operations s' = module_operations s"
    "next_object s' = next_object s" "next_operation s' = next_operation s"
    "next_module_operation s' = next_module_operation s"
  shows "bounds s'"
  using assms(1) by (rule bounds_shrink) (use assms(2-) in auto)

lemma cancel_object_invariant:
  assumes "invariant E s" "cancel_object oid s = Inr s'"
  shows "invariant E s'"
proof (cases "objects s oid")
  case None
  then show ?thesis using assms(2) by (simp add: cancel_object_def)
next
  case (Some ob)
  then have s': "s' = s\<lparr>objects := (objects s)(oid \<mapsto> ob\<lparr>cancellable := True\<rparr>)\<rparr>"
    using assms(2) by (simp add: cancel_object_def)
  show ?thesis
  proof (rule invariantI)
    show "sched_ok E (objects s') (operations s')"
      using sched_obj_same[OF invariantD(1)[OF assms(1)] Some, of "ob\<lparr>cancellable := True\<rparr>"] s'
      by simp
    show "registry_ok (object_by_handle s') (objects s')"
      using registry_obj_same[OF invariantD(2)[OF assms(1)] Some, of "ob\<lparr>cancellable := True\<rparr>"] s'
      by simp
    show "bounds s'"
      using invariantD(3)[OF assms(1)]
      by (rule bounds_same) (use s' Some in \<open>auto split: if_splits\<close>)
    show "manager_freed s' \<Longrightarrow> object_by_handle s' = []"
      using invariantD(4)[OF assms(1)] s' by simp
  qed
qed

lemma flush_objects_invariant:
  "invariant E s \<Longrightarrow> flush_objects vs s = Inr s' \<Longrightarrow> invariant E s'"
proof (induction vs arbitrary: s)
  case Nil
  then show ?case by simp
next
  case (Cons v vs)
  then show ?case
    by (auto split: sum.splits dest: cancel_object_invariant)
qed

lemma manager_flush_invariant:
  assumes "invariant E s" "gum_v8_object_manager_flush s = Inr s'"
  shows "invariant E s'"
proof -
  from assms(2) obtain s1 where s1: "flush_objects (map snd (object_by_handle s)) s = Inr s1"
    and s': "s' = s1\<lparr>manager_cancellable := True\<rparr>"
    by (auto simp: gum_v8_object_manager_flush_def split: if_splits sum.splits)
  have "invariant E s1" using assms(1) s1 by (rule flush_objects_invariant)
  then show ?thesis unfolding s' by (simp add: invariant_def bounds_def)
qed

lemma manager_cancel_invariant:
  assumes "invariant E s" "gum_v8_object_manager_cancel h s = Inr (found, s')"
  shows "invariant E s'"
  using assms
  by (auto simp: gum_v8_object_manager_cancel_def split: if_splits option.splits sum.splits
      dest: cancel_object_invariant)

text \<open>Registry updates\<close>

lemma registry_lookup:
  assumes "registry_ok tbl obs" "obs oid = Some ob"
  shows "map_of tbl (handle ob) = Some oid"
  using registry_okD(1)[OF assms(1)] registry_okD(3)[OF assms(1) assms(2)]
  by (rule map_of_is_SomeI)

lemma registry_remove:
  assumes "registry_ok tbl obs" "map_of tbl h = Some old"
  shows "registry_ok (filter (\<lambda>(k, v). k \<noteq> h) tbl) (obs(old := None))"
proof (rule registry_okI)
  show "distinct (map fst (filter (\<lambda>(k, v). k \<noteq> h) tbl))"
    using registry_okD(1)[OF assms(1)] by (simp add: distinct_map_filter)
next
  fix k v
  assume a: "(k, v) \<in> set (filter (\<lambda>(k, v). k \<noteq> h) tbl)"
  then have mem: "(k, v) \<in> set tbl" and kh: "k \<noteq> h" by auto
  from registry_okD(2)[OF assms(1) mem] obtain ob where ob: "obs v = Some ob" "handle ob = k"
    by blast
  have "(h, old) \<in> set tbl" using assms(2) by (rule map_of_SomeD)
  from registry_okD(2)[OF assms(1) this] obtain ob' where "obs old = Some ob'" "handle ob' = h"
    by blast
  then have "v \<noteq> old" using ob kh by auto
  then show "\<exists>ob. (obs(old := None)) v = Some ob \<and> handle ob = k" using ob by simp
next
  fix oid ob
  assume a: "(obs(old := None)) oid = Some ob"
  then have ne: "oid \<noteq> old" and live: "obs oid = Some ob" by (auto split: if_splits)
  have "map_of tbl (handle ob) = Some oid" using assms(1) live by (rule registry_lookup)
  then have "handle ob \<noteq> h" using assms(2) ne by auto
  then show "(handle ob, oid) \<in> set (filter (\<lambda>(k, v). k \<noteq> h) tbl)"
    using registry_okD(3)[OF assms(1) live] by simp
qed

lemma registry_add_fresh:
  assumes "registry_ok tbl obs" "map_of tbl h = None" "obs oid = None" "handle ob = h"
  shows "registry_ok (tbl @ [(h, oid)]) (obs(oid \<mapsto> ob))"
proof (rule registry_okI)
  have "h \<notin> fst ` set tbl" using assms(2) by (simp add: map_of_eq_None_iff)
  then show "distinct (map fst (tbl @ [(h, oid)]))"
    using registry_okD(1)[OF assms(1)] by simp
next
  fix k v
  assume "(k, v) \<in> set (tbl @ [(h, oid)])"
  then consider "(k, v) \<in> set tbl" | "k = h" "v = oid" by auto
  then show "\<exists>ob'. (obs(oid \<mapsto> ob)) v = Some ob' \<and> handle ob' = k"
  proof cases
    case 1
    from registry_okD(2)[OF assms(1) 1] obtain ob' where "obs v = Some ob'" "handle ob' = k"
      by blast
    then show ?thesis using assms(3) by (cases "v = oid") auto
  next
    case 2
    then show ?thesis using assms(4) by simp
  qed
next
  fix x ob'
  assume "(obs(oid \<mapsto> ob)) x = Some ob'"
  then show "(handle ob', x) \<in> set (tbl @ [(h, oid)])"
    using registry_okD(3)[OF assms(1), of x ob'] assms(4) by (cases "x = oid") auto
qed

lemma registry_replace:
  assumes "registry_ok tbl obs" "map_of tbl h = Some old" "obs oid = None" "handle ob = h"
  shows "registry_ok (map (\<lambda>(k, v). if k = h then (k, oid) else (k, v)) tbl)
           ((obs(oid \<mapsto> ob))(old := None))"
proof (rule registry_okI)
  have "map fst (map (\<lambda>(k, v). if k = h then (k, oid) else (k, v)) tbl) = map fst tbl"
    by (induction tbl) auto
  then show "distinct (map fst (map (\<lambda>(k, v). if k = h then (k, oid) else (k, v)) tbl))"
    using registry_okD(1)[OF assms(1)] by (simp only:)
next
  have hold: "(h, old) \<in> set tbl" using assms(2) by (rule map_of_SomeD)
  from registry_okD(2)[OF assms(1) hold] obtain obo where obo: "obs old = Some obo" "handle obo = h"
    by blast
  have neo: "old \<noteq> oid" using obo assms(3) by auto
  {
    fix k v
    assume "(k, v) \<in> set (map (\<lambda>(k, v). if k = h then (k, oid) else (k, v)) tbl)"
    then consider "k = h" "v = oid" | "k \<noteq> h" "(k, v) \<in> set tbl"
      by (auto split: if_splits)
    then show "\<exists>ob'. ((obs(oid \<mapsto> ob))(old := None)) v = Some ob' \<and> handle ob' = k"
    proof cases
      case 1
      then show ?thesis using assms(4) neo by simp
    next
      case 2
      from registry_okD(2)[OF assms(1) 2(2)] obtain ob' where ob': "obs v = Some ob'" "handle ob' = k"
        by blast
      then have "v \<noteq> old" "v \<noteq> oid" using obo 2(1) assms(3) by auto
      then show ?thesis using ob' by simp
    qed
  }
  {
    fix x ob'
    assume a: "((obs(oid \<mapsto> ob))(old := None)) x = Some ob'"
    show "(handle ob', x) \<in> set (map (\<lambda>(k, v). if k = h then (k, oid) else (k, v)) tbl)"
    proof (cases "x = oid")
      case True
      then have "ob' = ob" using a neo by simp
      then have "(handle ob', x) = (\<lambda>(k, v). if k = h then (k, oid) else (k, v)) (h, old)"
        using True assms(4) by simp
      then show ?thesis using hold by (metis (no_types, lifting) image_eqI list.set_map)
    next
      case False
      then have live: "obs x = Some ob'" and xo: "x \<noteq> old" using a by (auto split: if_splits)
      have "map_of tbl (handle ob') = Some x" using assms(1) live by (rule registry_lookup)
      then have kh: "handle ob' \<noteq> h" using assms(2) xo by auto
      have "(handle ob', x) \<in> set tbl" using registry_okD(3)[OF assms(1) live] .
      moreover have "(\<lambda>(k, v). if k = h then (k, oid) else (k, v)) (handle ob', x) = (handle ob', x)"
        using kh by simp
      ultimately show ?thesis by (metis (no_types, lifting) image_eqI list.set_map)
    qed
  }
qed

lemma sched_subheap_eq:
  assumes "sched_ok E obs ops" "ops' = ops" "\<And>oid. obs' oid = None \<or> obs' oid = obs oid"
  shows "sched_ok E obs' ops'"
  using sched_subheap[OF assms(1), of obs'] assms(2,3) by simp

lemma object_free_eq:
  assumes "objects s oid = Some ob" "num_active_operations ob = 0" "pending_operations ob = []"
  shows "gum_v8_object_free oid s = Inr (s\<lparr>objects := (objects s)(oid := None)\<rparr>)"
  using assms by (simp add: gum_v8_object_free_def)

lemma object_free_result:
  assumes "gum_v8_object_free oid s = Inr s'"
  shows "s' = s\<lparr>objects := (objects s)(oid := None)\<rparr>"
  using assms by (auto simp: gum_v8_object_free_def split: option.splits if_splits)

lemma hash_table_remove_invariant:
  assumes "invariant E s" "g_hash_table_remove h s = Inr s'"
  shows "invariant E s'"
proof (cases "map_of (object_by_handle s) h")
  case None
  then show ?thesis using assms by (simp add: g_hash_table_remove_def)
next
  case (Some old)
  let ?s1 = "s\<lparr>object_by_handle := filter (\<lambda>(k, v). k \<noteq> h) (object_by_handle s)\<rparr>"
  have "gum_v8_object_free old ?s1 = Inr s'"
    using assms(2) Some by (simp add: g_hash_table_remove_def)
  then have s': "s' = ?s1\<lparr>objects := (objects ?s1)(old := None)\<rparr>" by (rule object_free_result)
  show ?thesis
  proof (rule invariantI)
    show "sched_ok E (objects s') (operations s')"
      using invariantD(1)[OF assms(1)] by (rule sched_subheap_eq) (simp_all add: s')
    show "registry_ok (object_by_handle s') (objects s')"
      using registry_remove[OF invariantD(2)[OF assms(1)] Some] s' by simp
    show "bounds s'"
      using invariantD(3)[OF assms(1)]
      by (rule bounds_same) (use s' in \<open>auto split: if_splits\<close>)
    show "manager_freed s' \<Longrightarrow> object_by_handle s' = []"
      using invariantD(4)[OF assms(1)] s' by simp
  qed
qed

lemma weak_notify_invariant:
  assumes "invariant E s" "gum_v8_object_on_weak_notify oid s = Inr s'"
  shows "invariant E s'"
  using assms
  by (auto simp: gum_v8_object_on_weak_notify_def split: option.splits if_splits
      dest: hash_table_remove_invariant)

lemma manager_add_invariant:
  assumes inv: "invariant E s" and res: "gum_v8_object_manager_add h s = Inr (oid, s')"
  shows "invariant E s'"
proof -
  note b = invariantD(3)[OF inv]
  let ?n = "next_object s"
  let ?new = "\<lparr>handle = h, cancellable = False, num_active_operations = 0,
               pending_operations = []\<rparr>"
  let ?s1 = "s\<lparr>objects := (objects s)(?n \<mapsto> ?new), next_object := Suc ?n\<rparr>"
  have nf: "\<not> manager_freed s" and ins: "g_hash_table_insert h ?n ?s1 = Inr s'"
    using res by (auto simp: gum_v8_object_manager_add_def Let_def split: if_splits sum.splits)
  have fresh: "objects s ?n = None" by (rule bounds_fresh_obj[OF b])
  have noref: "\<And>p op. operations s p = Some op \<Longrightarrow> object op \<noteq> ?n"
    using bounds_opD[OF b] by fastforce
  have sch1: "sched_ok E ((objects s)(?n \<mapsto> ?new)) (operations s)"
    using invariantD(1)[OF inv] noref by (rule sched_obj_new)
  show ?thesis
  proof (cases "map_of (object_by_handle s) h")
    case None
    then have s': "s' = ?s1\<lparr>object_by_handle := object_by_handle s @ [(h, ?n)]\<rparr>"
      using ins by (simp add: g_hash_table_insert_def)
    show ?thesis
    proof (rule invariantI)
      show "sched_ok E (objects s') (operations s')" using sch1 s' by simp
      show "registry_ok (object_by_handle s') (objects s')"
        using registry_add_fresh[OF invariantD(2)[OF inv] None fresh, of ?new] s' by simp
      show "bounds s'"
        using b unfolding bounds_def s' by (auto simp: less_Suc_eq split: if_splits)
      show "manager_freed s' \<Longrightarrow> object_by_handle s' = []" using nf s' by simp
    qed
  next
    case (Some old)
    let ?s2 = "?s1\<lparr>object_by_handle :=
                 map (\<lambda>(k, v). if k = h then (k, ?n) else (k, v)) (object_by_handle s)\<rparr>"
    have "gum_v8_object_free old ?s2 = Inr s'"
      using ins Some by (simp add: g_hash_table_insert_def)
    then have s': "s' = ?s2\<lparr>objects := (objects ?s2)(old := None)\<rparr>" by (rule object_free_result)
    show ?thesis
    proof (rule invariantI)
      show "sched_ok E (objects s') (operations s')"
        using sch1 by (rule sched_subheap_eq) (simp_all add: s')
      show "registry_ok (object_by_handle s') (objects s')"
        using registry_replace[OF invariantD(2)[OF inv] Some fresh, of ?new] s' by simp
      show "bounds s'"
        using b unfolding bounds_def s' by (auto simp: less_Suc_eq split: if_splits)
      show "manager_freed s' \<Longrightarrow> object_by_handle s' = []" using nf s' by simp
    qed
  qed
qed

lemma remove_all_result:
  "g_hash_table_remove_all vs s = Inr s' \<Longrightarrow>
     s' = s\<lparr>objects := (\<lambda>oid. if oid \<in> set vs then None else objects s oid)\<rparr>"
proof (induction vs arbitrary: s)
  case Nil
  then show ?case by simp
next
  case (Cons v vs)
  from Cons.prems obtain s1 where s1: "gum_v8_object_free v s = Inr s1"
    and r: "g_hash_table_remove_all vs s1 = Inr s'"
    by (auto split: sum.splits)
  have e1: "s1 = s\<lparr>objects := (objects s)(v := None)\<rparr>" using s1 by (rule object_free_result)
  have "s' = s1\<lparr>objects := (\<lambda>oid. if oid \<in> set vs then None else objects s1 oid)\<rparr>"
    using r by (rule Cons.IH)
  then show ?case unfolding e1 by (auto intro!: state.equality simp: fun_eq_iff)
qed

lemma remove_all_ok:
  assumes "distinct vs"
    "\<And>v. v \<in> set vs \<Longrightarrow> \<exists>ob. objects s v = Some ob \<and> num_active_operations ob = 0 \<and>
        pending_operations ob = []"
  shows "g_hash_table_remove_all vs s =
           Inr (s\<lparr>objects := (\<lambda>oid. if oid \<in> set vs then None else objects s oid)\<rparr>)"
  using assms
proof (induction vs arbitrary: s)
  case Nil
  then show ?case by simp
next
  case (Cons v vs)
  from Cons.prems(2)[of v] obtain ob where ob: "objects s v = Some ob"
    "num_active_operations ob = 0" "pending_operations ob = []" by auto
  let ?s1 = "s\<lparr>objects := (objects s)(v := None)\<rparr>"
  have f: "gum_v8_object_free v s = Inr ?s1" using ob by (rule object_free_eq)
  have "g_hash_table_remove_all vs ?s1 =
      Inr (?s1\<lparr>objects := (\<lambda>oid. if oid \<in> set vs then None else objects ?s1 oid)\<rparr>)"
  proof (rule Cons.IH)
    show "distinct vs" using Cons.prems(1) by simp
    fix w assume "w \<in> set vs"
    then have "w \<noteq> v" using Cons.prems(1) by auto
    then show "\<exists>ob. objects ?s1 w = Some ob \<and> num_active_operations ob = 0 \<and>
        pending_operations ob = []"
      using Cons.prems(2)[of w] \<open>w \<in> set vs\<close> by simp
  qed
  then show ?case using f by (auto intro!: state.equality simp: fun_eq_iff)
qed

lemma manager_free_invariant:
  assumes inv: "invariant E s" and res: "gum_v8_object_manager_free s = Inr s'"
  shows "invariant E s'"
proof -
  let ?vs = "map snd (object_by_handle s)"
  let ?s0 = "s\<lparr>object_by_handle := []\<rparr>"
  from res obtain s1 where s1: "g_hash_table_remove_all ?vs ?s0 = Inr s1"
    and s': "s' = s1\<lparr>manager_freed := True\<rparr>"
    by (auto simp: gum_v8_object_manager_free_def split: if_splits sum.splits)
  have e1: "s1 = ?s0\<lparr>objects := (\<lambda>oid. if oid \<in> set ?vs then None else objects ?s0 oid)\<rparr>"
    using s1 by (rule remove_all_result)
  have gone: "objects s' oid = None" for oid
  proof (cases "objects s oid")
    case None
    then show ?thesis by (simp add: s' e1)
  next
    case (Some ob)
    from registry_okD(3)[OF invariantD(2)[OF inv] Some]
    have "oid \<in> set ?vs" by force
    then show ?thesis by (simp add: s' e1)
  qed
  show ?thesis
  proof (rule invariantI)
    show "sched_ok E (objects s') (operations s')"
      using invariantD(1)[OF inv] by (rule sched_subheap_eq) (simp_all add: s' e1)
    show "registry_ok (object_by_handle s') (objects s')"
      using gone by (intro registry_okI) (simp_all add: s' e1)
    show "bounds s'"
      using invariantD(3)[OF inv]
      by (rule bounds_same) (use gone in \<open>auto simp: s' e1\<close>)
    show "manager_freed s' \<Longrightarrow> object_by_handle s' = []" by (simp add: s' e1)
  qed
qed

lemma module_operation_new_invariant:
  assumes "invariant E s" "gum_v8_module_operation_new cl s = Inr (m, s')"
  shows "invariant E s'"
proof -
  have s': "objects s' = objects s" "operations s' = operations s"
    "object_by_handle s' = object_by_handle s" "manager_freed s' = manager_freed s"
    "next_object s' = next_object s" "next_operation s' = next_operation s"
    "next_module_operation s' = Suc (next_module_operation s)"
    "module_operations s' = (module_operations s)(next_module_operation s \<mapsto>
        \<lparr>module_cleanup = cl\<rparr>)"
    using assms(2)
    by (auto simp: gum_v8_module_operation_new_def gum_v8_core_pin_def log_action_def Let_def
        split: if_splits)
  show ?thesis
    using assms(1) unfolding invariant_def bounds_def s'
    by (auto simp: less_Suc_eq split: if_splits)
qed

lemma module_operation_free_invariant:
  assumes "invariant E s" "gum_v8_module_operation_free m s = Inr s'"
  shows "invariant E s'"
proof -
  have s': "objects s' = objects s" "operations s' = operations s"
    "object_by_handle s' = object_by_handle s" "manager_freed s' = manager_freed s"
    "next_object s' = next_object s" "next_operation s' = next_operation s"
    "next_module_operation s' = next_module_operation s"
    "module_operations s' = (module_operations s)(m := None)"
    using assms(2)
    by (auto simp: gum_v8_module_operation_free_def gum_v8_core_unpin_def log_action_def Let_def
        split: if_splits option.splits)
  show ?thesis
    using assms(1) unfolding invariant_def bounds_def s'
    by (auto split: if_splits)
qed

lemma init_invariant: "invariant {} (gum_v8_object_manager_init u)"
  by (auto simp: invariant_def sched_ok_def counters_ok_def queues_ok_def started_ok_def
      probes_ok_def registry_ok_def bounds_def gum_v8_object_manager_init_def)

lemma unsubmittedD:
  assumes "unsubmitted s p"
  shows "\<exists>op. operations s p = Some op \<and> \<not> job_started op \<and>
    pending_dependencies op = [] \<and> blocked_operation op = None \<and>
    (\<forall>ob. objects s (object op) = Some ob \<longrightarrow> p \<notin> set (pending_operations ob))"
  using assms by (auto simp: unsubmitted_def split: option.splits)

lemma unqueued_everywhere:
  assumes "invariant E s" "operations s p = Some op"
    "\<And>ob. objects s (object op) = Some ob \<Longrightarrow> p \<notin> set (pending_operations ob)"
    "objects s oid = Some ob"
  shows "p \<notin> set (pending_operations ob)"
proof
  assume "p \<in> set (pending_operations ob)"
  from queuedD[OF sched_okD(3)[OF invariantD(1)[OF assms(1)]] assms(4) this] assms(2)
  have "object op = oid" by auto
  then show False using assms(3,4) \<open>p \<in> set (pending_operations ob)\<close> by auto
qed

lemma step_invariant:
  assumes inv: "invariant {} s" and perm: "permitted s e" and res: "step e s = Inr s'"
  shows "invariant {} s'"
proof (cases e)
  case (ManagerAdd h)
  then show ?thesis
    using inv res by (auto split: sum.splits dest: manager_add_invariant)
next
  case (ManagerCancel h)
  then show ?thesis
    using inv res by (auto split: sum.splits dest: manager_cancel_invariant)
next
  case ManagerFlush
  then show ?thesis using inv res by (auto dest: manager_flush_invariant)
next
  case ManagerFree
  then show ?thesis using inv res by (auto dest: manager_free_invariant)
next
  case (WeakNotify oid)
  then show ?thesis using inv res by (auto dest: weak_notify_invariant)
next
  case (OperationNew oid cl)
  then show ?thesis
    using inv res by (auto split: sum.splits dest: operation_new_invariant)
next
  case (Schedule p)
  then have u: "unsubmitted s p" and r: "gum_v8_object_operation_schedule p s = Inr s'"
    using perm res by simp_all
  from u obtain op where op: "operations s p = Some op" "\<not> job_started op"
    "pending_dependencies op = []" "blocked_operation op = None"
    "\<And>ob. objects s (object op) = Some ob \<Longrightarrow> p \<notin> set (pending_operations ob)"
    using unsubmittedD by blast
  show ?thesis using inv op(1,2,3,5) r by (rule schedule_invariant)
next
  case (ScheduleWhenIdle p deps)
  then have u: "unsubmitted s p"
    and r: "gum_v8_object_operation_schedule_when_idle p deps s = Inr s'"
    using perm res by simp_all
  from u obtain op where op: "operations s p = Some op" "\<not> job_started op"
    "pending_dependencies op = []" "blocked_operation op = None"
    "\<And>ob. objects s (object op) = Some ob \<Longrightarrow> p \<notin> set (pending_operations ob)"
    using unsubmittedD by blast
  show ?thesis
  proof (cases deps)
    case None
    then show ?thesis
      using schedule_when_idle_null_invariant[OF inv op(1,2,5)] r by simp
  next
    case (Some ds)
    have "\<And>oid ob. objects s oid = Some ob \<Longrightarrow> p \<notin> set (pending_operations ob)"
      using unqueued_everywhere[OF inv op(1,5)] .
    from schedule_when_idle_invariant[OF inv op(1,2,4) this] r Some show ?thesis by simp
  qed
next
  case (Perform p)
  then obtain probe b where "operations s p = Some probe" "job_started probe"
    "blocked_operation probe = Some b"
    using perm by (auto split: option.splits)
  then show ?thesis using inv res Perform by (auto dest: perform_invariant)
next
  case (Finish p)
  then obtain op where "operations s p = Some op" "job_started op"
    using perm by (auto split: option.splits)
  from operation_free_invariant[OF inv this] show ?thesis
    using res Finish by (simp add: gum_v8_object_operation_finish_def)
next
  case (ModuleOperationNew cl)
  then show ?thesis
    using inv res by (auto split: sum.splits dest: module_operation_new_invariant)
next
  case (ModuleFinish m)
  then show ?thesis using inv res by (auto dest: module_operation_free_invariant)
qed

lemma exec_invariant:
  "invariant {} s \<Longrightarrow> exec es s = Some s' \<Longrightarrow> invariant {} s'"
proof (induction es arbitrary: s)
  case Nil
  then show ?case by simp
next
  case (Cons e es)
  then show ?case
    by (auto split: if_splits sum.splits dest: step_invariant)
qed

lemma reachable_invariant:
  "exec es (gum_v8_object_manager_init u) = Some s \<Longrightarrow> invariant {} s"
  using init_invariant by (rule exec_invariant)

lemma wrapper_held_iff:
  assumes "bounds s"
  shows "wrapper_held s oid \<longleftrightarrow> (\<exists>p op. operations s p = Some op \<and> object op = oid)"
proof
  assume "wrapper_held s oid"
  then show "\<exists>p op. operations s p = Some op \<and> object op = oid"
    by (auto simp: wrapper_held_def list_ex_iff split: option.splits)
next
  assume "\<exists>p op. operations s p = Some op \<and> object op = oid"
  then obtain p op where op: "operations s p = Some op" "object op = oid" by blast
  then have "p < next_operation s" using bounds_opD[OF assms] by blast
  then show "wrapper_held s oid"
    using op by (auto simp: wrapper_held_def list_ex_iff intro!: bexI[of _ p])
qed

lemma no_operations_iff:
  assumes "bounds s"
  shows "list_all (\<lambda>p. operations s p = None) [0..<next_operation s] \<longleftrightarrow>
         operations s = Map.empty"
proof
  assume a: "list_all (\<lambda>p. operations s p = None) [0..<next_operation s]"
  show "operations s = Map.empty"
  proof
    fix p
    show "operations s p = None"
    proof (cases "operations s p")
      case (Some op)
      then have "p < next_operation s" using bounds_opD[OF assms] by blast
      then show ?thesis using a by (simp add: list_all_iff)
    qed simp
  qed
qed (simp add: list_all_iff)

lemma weak_notify_ok:
  assumes inv: "invariant {} s" and perm: "permitted s (WeakNotify oid)"
  shows "\<exists>ob. objects s oid = Some ob \<and> num_active_operations ob = 0 \<and>
           pending_operations ob = [] \<and>
           step (WeakNotify oid) s =
             Inr (s\<lparr>object_by_handle :=
                      filter (\<lambda>(k, v). k \<noteq> handle ob) (object_by_handle s),
                    objects := (objects s)(oid := None)\<rparr>)"
proof -
  from perm obtain ob where ob: "objects s oid = Some ob" and nh: "\<not> wrapper_held s oid"
    by auto
  have noref: "\<And>p op. operations s p = Some op \<Longrightarrow> object op \<noteq> oid"
    using nh wrapper_held_iff[OF invariantD(3)[OF inv]] by blast
  have idle: "num_active_operations ob = 0" "pending_operations ob = []"
    using idle_when_unreferenced[OF invariantD(1)[OF inv] ob noref] by simp_all
  have look: "map_of (object_by_handle s) (handle ob) = Some oid"
    using invariantD(2)[OF inv] ob by (rule registry_lookup)
  then have nf: "\<not> manager_freed s" using invariantD(4)[OF inv] by auto
  have "step (WeakNotify oid) s =
             Inr (s\<lparr>object_by_handle :=
                      filter (\<lambda>(k, v). k \<noteq> handle ob) (object_by_handle s),
                    objects := (objects s)(oid := None)\<rparr>)"
    using ob nf look idle
    by (simp add: gum_v8_object_on_weak_notify_def g_hash_table_remove_def
        gum_v8_object_free_def)
  then show ?thesis using ob idle by blast
qed

lemma manager_free_ok:
  assumes inv: "invariant {} s" and perm: "permitted s ManagerFree"
  shows "(\<forall>oid ob. objects s oid = Some ob \<longrightarrow>
            num_active_operations ob = 0 \<and> pending_operations ob = []) \<and>
         (\<not> manager_freed s \<longrightarrow>
            step ManagerFree s =
              Inr (s\<lparr>object_by_handle := [], objects := Map.empty, manager_freed := True\<rparr>))"
proof -
  have noops: "operations s = Map.empty"
    using perm no_operations_iff[OF invariantD(3)[OF inv]] by simp
  have idle: "num_active_operations ob = 0 \<and> pending_operations ob = []"
    if "objects s oid = Some ob" for oid ob
    using idle_when_unreferenced[OF invariantD(1)[OF inv] that] noops by simp
  let ?tbl = "object_by_handle s"
  let ?vs = "map snd ?tbl"
  note reg = invariantD(2)[OF inv]
  have inj: "inj_on snd (set ?tbl)"
  proof (rule inj_onI)
    fix x y assume x: "x \<in> set ?tbl" and y: "y \<in> set ?tbl" and e: "snd x = snd y"
    obtain h v where xe: "x = (h, v)" by (cases x)
    obtain h' v' where ye: "y = (h', v')" by (cases y)
    from registry_okD(2)[OF reg, of h v] x xe obtain ob where "objects s v = Some ob" "handle ob = h"
      by auto
    moreover from registry_okD(2)[OF reg, of h' v'] y ye obtain ob' where
      "objects s v' = Some ob'" "handle ob' = h'" by auto
    ultimately show "x = y" using e xe ye by auto
  qed
  have dv: "distinct ?vs"
    using registry_okD(1)[OF reg] inj by (auto simp: distinct_map)
  let ?s0 = "s\<lparr>object_by_handle := []\<rparr>"
  have ok: "g_hash_table_remove_all ?vs ?s0 =
      Inr (?s0\<lparr>objects := (\<lambda>oid. if oid \<in> set ?vs then None else objects ?s0 oid)\<rparr>)"
  proof (rule remove_all_ok[OF dv])
    fix v assume "v \<in> set ?vs"
    then obtain h where "(h, v) \<in> set ?tbl" by auto
    from registry_okD(2)[OF reg this] obtain ob where "objects s v = Some ob" by blast
    then show "\<exists>ob. objects ?s0 v = Some ob \<and> num_active_operations ob = 0 \<and>
        pending_operations ob = []"
      using idle by auto
  qed
  have empty: "(\<lambda>oid. if oid \<in> set ?vs then None else objects ?s0 oid) = Map.empty"
  proof
    fix oid
    show "(if oid \<in> set ?vs then None else objects ?s0 oid) = None"
    proof (cases "objects s oid")
      case (Some ob)
      from registry_okD(3)[OF reg Some] have "oid \<in> set ?vs" by force
      then show ?thesis by simp
    qed simp
  qed
  have "\<not> manager_freed s \<Longrightarrow> step ManagerFree s =
          Inr (s\<lparr>object_by_handle := [], objects := Map.empty, manager_freed := True\<rparr>)"
    using ok unfolding empty by (simp add: gum_v8_object_manager_free_def)
  then show ?thesis using idle by blast
qed

lemma schedule_when_idle_no_dependencies_eq:
  "gum_v8_object_operation_schedule_when_idle_no_dependencies p s =
     gum_v8_object_operation_schedule_when_idle p None s"
  by (simp add: gum_v8_object_operation_schedule_when_idle_no_dependencies_def)

lemma registry_entry_live:
  assumes "invariant E s" "map_of (object_by_handle s) h = Some oid"
  shows "\<exists>ob. objects s oid = Some ob \<and> handle ob = h"
  using registry_okD(2)[OF invariantD(2)[OF assms(1)] map_of_SomeD[OF assms(2)]] .

lemma manager_cancel_eq:
  assumes "invariant E s" "\<not> manager_freed s"
  shows "(map_of (object_by_handle s) h = None \<longrightarrow>
            gum_v8_object_manager_cancel h s = Inr (False, s)) \<and>
         (\<forall>oid. map_of (object_by_handle s) h = Some oid \<longrightarrow>
            (\<exists>ob. objects s oid = Some ob \<and> handle ob = h \<and>
               gum_v8_object_manager_cancel h s =
                 Inr (True, s\<lparr>objects := (objects s)(oid \<mapsto> ob\<lparr>cancellable := True\<rparr>)\<rparr>)))"
proof (intro conjI allI impI)
  assume "map_of (object_by_handle s) h = None"
  then show "gum_v8_object_manager_cancel h s = Inr (False, s)"
    using assms(2) by (simp add: gum_v8_object_manager_cancel_def)
next
  fix oid assume a: "map_of (object_by_handle s) h = Some oid"
  from registry_entry_live[OF assms(1) a] obtain ob where ob: "objects s oid = Some ob" "handle ob = h"
    by blast
  then have "gum_v8_object_manager_cancel h s =
                 Inr (True, s\<lparr>objects := (objects s)(oid \<mapsto> ob\<lparr>cancellable := True\<rparr>)\<rparr>)"
    using assms(2) a by (simp add: gum_v8_object_manager_cancel_def cancel_object_def)
  then show "\<exists>ob. objects s oid = Some ob \<and> handle ob = h \<and>
               gum_v8_object_manager_cancel h s =
                 Inr (True, s\<lparr>objects := (objects s)(oid \<mapsto> ob\<lparr>cancellable := True\<rparr>)\<rparr>)"
    using ob by blast
qed

lemma flush_objects_eq:
  assumes "\<And>v. v \<in> set vs \<Longrightarrow> objects s v \<noteq> None"
  shows "flush_objects vs s =
     Inr (s\<lparr>objects := (\<lambda>oid. if oid \<in> set vs
                 then map_option (\<lambda>ob. ob\<lparr>cancellable := True\<rparr>) (objects s oid)
                 else objects s oid)\<rparr>)"
  using assms
proof (induction vs arbitrary: s)
  case Nil
  then show ?case by simp
next
  case (Cons v vs)
  from Cons.prems[of v] obtain ob where ob: "objects s v = Some ob" by auto
  let ?s1 = "s\<lparr>objects := (objects s)(v \<mapsto> ob\<lparr>cancellable := True\<rparr>)\<rparr>"
  have c: "cancel_object v s = Inr ?s1" using ob by (rule cancel_object_eq)
  have "flush_objects vs ?s1 =
     Inr (?s1\<lparr>objects := (\<lambda>oid. if oid \<in> set vs
                 then map_option (\<lambda>ob. ob\<lparr>cancellable := True\<rparr>) (objects ?s1 oid)
                 else objects ?s1 oid)\<rparr>)"
    by (rule Cons.IH) (use Cons.prems in auto)
  then show ?case using c ob by (auto intro!: state.equality simp: fun_eq_iff)
qed

lemma manager_flush_eq:
  assumes "invariant E s" "\<not> manager_freed s"
  shows "gum_v8_object_manager_flush s =
     Inr (s\<lparr>objects := (\<lambda>oid. map_option (\<lambda>ob. ob\<lparr>cancellable := True\<rparr>) (objects s oid)),
            manager_cancellable := True\<rparr>)"
proof -
  note reg = invariantD(2)[OF assms(1)]
  let ?vs = "map snd (object_by_handle s)"
  have live: "\<And>v. v \<in> set ?vs \<Longrightarrow> objects s v \<noteq> None"
    using registry_okD(2)[OF reg] by fastforce
  have "(\<lambda>oid. if oid \<in> set ?vs
                 then map_option (\<lambda>ob. ob\<lparr>cancellable := True\<rparr>) (objects s oid)
                 else objects s oid) =
        (\<lambda>oid. map_option (\<lambda>ob. ob\<lparr>cancellable := True\<rparr>) (objects s oid))"
  proof
    fix oid
    show "(if oid \<in> set ?vs
                 then map_option (\<lambda>ob. ob\<lparr>cancellable := True\<rparr>) (objects s oid)
                 else objects s oid) =
          map_option (\<lambda>ob. ob\<lparr>cancellable := True\<rparr>) (objects s oid)"
    proof (cases "objects s oid")
      case (Some ob)
      from registry_okD(3)[OF reg Some] have "oid \<in> set ?vs" by force
      then show ?thesis by simp
    qed simp
  qed
  moreover have "flush_objects ?vs s =
     Inr (s\<lparr>objects := (\<lambda>oid. if oid \<in> set ?vs
                 then map_option (\<lambda>ob. ob\<lparr>cancellable := True\<rparr>) (objects s oid)
                 else objects s oid)\<rparr>)"
    by (rule flush_objects_eq) (rule live)
  ultimately show ?thesis
    using assms(2) by (simp add: gum_v8_object_manager_flush_def)
qed

lemma completion_preconditions:
  assumes "invariant E s" "operations s p = Some op" "job_started op"
    "objects s (object op) = Some ob"
  shows "pending_dependencies op = []"
    and "\<And>nxt rest. pending_operations ob = nxt # rest \<Longrightarrow>
           nxt \<noteq> p \<and> (\<exists>nop. operations s nxt = Some nop \<and> object nop = object op)"
proof -
  note sch = invariantD(1)[OF assms(1)]
  show "pending_dependencies op = []"
    using sched_okD(4)[OF sch] assms(2,3) unfolding started_ok_def by blast
  fix nxt rest assume "pending_operations ob = nxt # rest"
  then have "nxt \<in> set (pending_operations ob)" by simp
  from queuedD[OF sched_okD(3)[OF sch] assms(4) this] assms(2,3)
  show "nxt \<noteq> p \<and> (\<exists>nop. operations s nxt = Some nop \<and> object nop = object op)" by auto
qed

lemma manager_add_existing_eq:
  assumes inv: "invariant E s" and nf: "\<not> manager_freed s"
    and reg: "map_of (object_by_handle s) h = Some old"
  shows "\<exists>ob. objects s old = Some ob \<and> handle ob = h \<and>
           gum_v8_object_manager_add h s =
             (if num_active_operations ob = 0 \<and> pending_operations ob = []
              then Inr (next_object s,
                        s\<lparr>object_by_handle :=
                             map (\<lambda>(k, v). if k = h then (k, next_object s) else (k, v))
                               (object_by_handle s),
                           objects := (objects s)(next_object s \<mapsto>
                             \<lparr>handle = h, cancellable = False, num_active_operations = 0,
                              pending_operations = []\<rparr>, old := None),
                           next_object := Suc (next_object s)\<rparr>)
              else Inl AssertionFailed)"
proof -
  from registry_entry_live[OF inv reg] obtain ob where ob: "objects s old = Some ob" "handle ob = h"
    by blast
  have ne: "old \<noteq> next_object s" using bounds_objD[OF invariantD(3)[OF inv] ob(1)] by simp
  have "gum_v8_object_manager_add h s =
             (if num_active_operations ob = 0 \<and> pending_operations ob = []
              then Inr (next_object s,
                        s\<lparr>object_by_handle :=
                             map (\<lambda>(k, v). if k = h then (k, next_object s) else (k, v))
                               (object_by_handle s),
                           objects := (objects s)(next_object s \<mapsto>
                             \<lparr>handle = h, cancellable = False, num_active_operations = 0,
                              pending_operations = []\<rparr>, old := None),
                           next_object := Suc (next_object s)\<rparr>)
              else Inl AssertionFailed)"
    using nf reg ob ne
    by (auto simp: gum_v8_object_manager_add_def g_hash_table_insert_def gum_v8_object_free_def
        Let_def intro!: state.equality)
  then show ?thesis using ob by blast
qed

section \<open>Preservation of the properties of the log\<close>

lemma history_ok_view: "history_view s' = history_view s \<Longrightarrow> history_ok u s' = history_ok u s"
  by (simp add: history_view_def history_ok_def pins_ok_def fifo_ok_def)

lemma pushed_append [simp]: "pushed oid (t @ u) = pushed oid t @ pushed oid u"
  by (simp add: pushed_def)

lemma popped_append [simp]: "popped oid (t @ u) = popped oid t @ popped oid u"
  by (simp add: popped_def)

lemma pushed_simps [simp]:
  "pushed oid [] = []"
  "pushed oid (PushTail o' x # t) = (if o' = oid then x # pushed oid t else pushed oid t)"
  "pushed oid (PopHead o' x # t) = pushed oid t"
  "pushed oid (Pin # t) = pushed oid t"
  "pushed oid (Unpin # t) = pushed oid t"
  "pushed oid (JobStart x # t) = pushed oid t"
  "pushed oid (Cleanup x # t) = pushed oid t"
  "pushed oid (DeleteWrapper x # t) = pushed oid t"
  "pushed oid (DeleteCallback x # t) = pushed oid t"
  "pushed oid (Increment x # t) = pushed oid t"
  "pushed oid (Decrement x # t) = pushed oid t"
  "pushed oid (ModuleCleanup x # t) = pushed oid t"
  "pushed oid (ModuleDeleteCallback x # t) = pushed oid t"
  by (simp_all add: pushed_def)

lemma popped_simps [simp]:
  "popped oid [] = []"
  "popped oid (PopHead o' x # t) = (if o' = oid then x # popped oid t else popped oid t)"
  "popped oid (PushTail o' x # t) = popped oid t"
  "popped oid (Pin # t) = popped oid t"
  "popped oid (Unpin # t) = popped oid t"
  "popped oid (JobStart x # t) = popped oid t"
  "popped oid (Cleanup x # t) = popped oid t"
  "popped oid (DeleteWrapper x # t) = popped oid t"
  "popped oid (DeleteCallback x # t) = popped oid t"
  "popped oid (Increment x # t) = popped oid t"
  "popped oid (Decrement x # t) = popped oid t"
  "popped oid (ModuleCleanup x # t) = popped oid t"
  "popped oid (ModuleDeleteCallback x # t) = popped oid t"
  by (simp_all add: popped_def)

lemma take2_append:
  assumes "take 2 t = [a, b]"
  shows "take 2 (t @ u) = [a, b]"
proof -
  have "length t \<ge> 2"
  proof (rule ccontr)
    assume "\<not> 2 \<le> length t"
    then have "length (take 2 t) < 2" by simp
    then show False using assms by simp
  qed
  then show ?thesis using assms by simp
qed

lemma pops_started_append: "pops_started t \<Longrightarrow> pops_started (t @ u) = pops_started u"
proof (induction t)
  case Nil
  then show ?case by simp
next
  case (Cons a t)
  then show ?case by (cases a) (auto simp: take2_append simp del: take_append)
qed

lemma count_list_append_int [simp]:
  "int (count_list (t @ u) a) = int (count_list t a) + int (count_list u a)"
  by simp

lemma delta_ok_refl: "history_view s' = history_view s \<Longrightarrow> delta_ok s [] s'"
  by (simp add: delta_ok_def history_view_def)

lemma delta_ok_trans:
  assumes "delta_ok s t s1" "delta_ok s1 t' s2"
  shows "delta_ok s (t @ t') s2"
proof -
  have q: "popped oid (t @ t') @ queue_of s2 oid = queue_of s oid @ pushed oid (t @ t')" for oid
  proof -
    have "popped oid (t @ t') @ queue_of s2 oid = popped oid t @ (popped oid t' @ queue_of s2 oid)"
      by simp
    also have "\<dots> = popped oid t @ (queue_of s1 oid @ pushed oid t')"
      using assms(2) by (simp add: delta_ok_def)
    also have "\<dots> = (popped oid t @ queue_of s1 oid) @ pushed oid t'" by simp
    also have "\<dots> = (queue_of s oid @ pushed oid t) @ pushed oid t'"
      using assms(1) by (simp add: delta_ok_def)
    finally show ?thesis by simp
  qed
  have p: "pops_started (t @ t')"
    using assms by (simp add: delta_ok_def pops_started_append)
  show ?thesis
    unfolding delta_ok_def
    using assms q p by (auto simp: delta_ok_def)
qed

lemma delta_ok_history:
  assumes "history_ok u s" "delta_ok s t s'"
  shows "history_ok u s'"
proof -
  have f: "pushed oid (trace s') = popped oid (trace s') @ queue_of s' oid" for oid
  proof -
    have "pushed oid (trace s') = pushed oid (trace s) @ pushed oid t"
      using assms(2) by (simp add: delta_ok_def)
    also have "\<dots> = popped oid (trace s) @ (queue_of s oid @ pushed oid t)"
      using assms(1) by (simp add: history_ok_def fifo_ok_def)
    also have "\<dots> = popped oid (trace s) @ (popped oid t @ queue_of s' oid)"
      using assms(2) by (simp add: delta_ok_def)
    finally show ?thesis using assms(2) by (simp add: delta_ok_def)
  qed
  have p: "pops_started (trace s')"
    using assms by (simp add: delta_ok_def history_ok_def fifo_ok_def pops_started_append)
  have pin: "pins_ok u s'"
    using assms unfolding delta_ok_def history_ok_def pins_ok_def by auto
  show ?thesis using f p pin by (simp add: history_ok_def fifo_ok_def)
qed

lemma finite_module_operations: "bounds s \<Longrightarrow> finite (dom (module_operations s))"
  by (rule finite_subset[of _ "{..<next_module_operation s}"]) (auto simp: bounds_def)

lemma finite_operations: "invariant E s \<Longrightarrow> finite (dom (operations s))"
  using sched_okD(1)[OF invariantD(1)] .

lemma queue_of_upd:
  "queue_of (s\<lparr>objects := (objects s)(oid \<mapsto> ob)\<rparr>) x =
     (if x = oid then pending_operations ob else queue_of s x)"
  by (simp add: queue_of_def)

lemma delta_schedule:
  assumes "operations s p = Some op" "objects s (object op) = Some ob"
    "gum_v8_object_operation_schedule p s = Inr s'"
  shows "delta_ok s [Increment (object op), JobStart p] s'"
proof -
  have s': "s' = s\<lparr>objects := (objects s)(object op \<mapsto>
                       ob\<lparr>num_active_operations := num_active_operations ob + 1\<rparr>),
                   operations := (operations s)(p \<mapsto> op\<lparr>job_started := True\<rparr>),
                   trace := trace s @ [Increment (object op), JobStart p]\<rparr>"
    using assms(3) schedule_eq[OF assms(1,2)] by simp
  have d: "dom ((operations s)(p \<mapsto> op\<lparr>job_started := True\<rparr>)) = dom (operations s)"
    using assms(1) by auto
  have q: "queue_of s' oid = queue_of s oid" for oid
    using assms(2) by (simp add: s' queue_of_def)
  show ?thesis unfolding delta_ok_def using q d by (simp add: s')
qed

lemma delta_try_schedule:
  assumes "operations s p = Some op"
    "gum_v8_object_operation_try_schedule_when_idle p s = Inr s'"
  shows "\<exists>t. delta_ok s t s'"
proof (cases "pending_dependencies op = []")
  case False
  then have "s' = s"
    using assms by (simp add: gum_v8_object_operation_try_schedule_when_idle_def)
  then show ?thesis using delta_ok_refl[of s s] by auto
next
  case pd: True
  show ?thesis
  proof (cases "objects s (object op)")
    case None
    then show ?thesis
      using assms pd by (simp add: gum_v8_object_operation_try_schedule_when_idle_def)
  next
    case (Some ob)
    show ?thesis
    proof (cases "num_active_operations ob = 0")
      case True
      then have "gum_v8_object_operation_schedule p s = Inr s'"
        using assms pd Some by (simp add: gum_v8_object_operation_try_schedule_when_idle_def)
      from delta_schedule[OF assms(1) Some this] show ?thesis by blast
    next
      case False
      then have s': "s' = s\<lparr>objects := (objects s)(object op \<mapsto>
                              ob\<lparr>pending_operations := pending_operations ob @ [p]\<rparr>),
                         trace := trace s @ [PushTail (object op) p]\<rparr>"
        using assms(2) try_schedule_eq[OF assms(1) Some] pd by simp
      have "delta_ok s [PushTail (object op) p] s'"
        unfolding delta_ok_def using Some by (auto simp: s' queue_of_def)
      then show ?thesis by blast
    qed
  qed
qed

lemma delta_operation_new:
  assumes "invariant E s" "gum_v8_object_operation_new oid cl s = Inr (p, s')"
  shows "delta_ok s [Pin] s'"
proof (cases "objects s oid")
  case None
  then show ?thesis using assms(2) by (simp add: gum_v8_object_operation_new_def)
next
  case (Some ob)
  have "Inr (p, s') = gum_v8_object_operation_new oid cl s" using assms(2) by simp
  also have "\<dots> = Inr (next_operation s,
          s\<lparr>operations := (operations s)(next_operation s \<mapsto>
                 \<lparr>object = oid, job_started = False, pending_dependencies = [],
                  cleanup = cl, blocked_operation = None\<rparr>),
            next_operation := Suc (next_operation s),
            usage_count := usage_count s + 1,
            trace := trace s @ [Pin]\<rparr>)"
    by (rule operation_new_eq[OF Some])
  finally have s': "s' = s\<lparr>operations := (operations s)(next_operation s \<mapsto>
                 \<lparr>object = oid, job_started = False, pending_dependencies = [],
                  cleanup = cl, blocked_operation = None\<rparr>),
            next_operation := Suc (next_operation s),
            usage_count := usage_count s + 1,
            trace := trace s @ [Pin]\<rparr>"
    by simp
  have fresh: "next_operation s \<notin> dom (operations s)"
    using bounds_fresh_op[OF invariantD(3)[OF assms(1)]] by auto
  show ?thesis
    unfolding delta_ok_def using fresh finite_operations[OF assms(1)]
    by (simp add: s' queue_of_def)
qed

lemma delta_arm_probe:
  assumes "invariant E s" "objects s d = Some dep" "operations s self = Some me"
  shows "delta_ok s [Pin, PushTail d (next_operation s)] (arm_probe self d dep me s)"
proof -
  have fresh: "next_operation s \<notin> dom (operations s)"
    using bounds_fresh_op[OF invariantD(3)[OF assms(1)]] by auto
  have d: "dom ((operations s)(next_operation s \<mapsto>
           \<lparr>object = d, job_started = False, pending_dependencies = [], cleanup = False,
            blocked_operation = Some self\<rparr>,
          self \<mapsto> me\<lparr>pending_dependencies := next_operation s # pending_dependencies me\<rparr>))
        = insert (next_operation s) (dom (operations s))"
    using assms(3) by auto
  show ?thesis
    unfolding delta_ok_def arm_probe_def
    using fresh finite_operations[OF assms(1)] assms(2) d
    by (auto simp: queue_of_def)
qed

lemma delta_operation_free:
  assumes inv: "invariant E s" and live: "operations s p = Some op" and st: "job_started op"
    and res: "gum_v8_object_operation_free p s = Inr s'"
  shows "\<exists>t. delta_ok s t s'"
proof (cases "objects s (object op)")
  case None
  then show ?thesis using live res by (simp add: gum_v8_object_operation_free_def)
next
  case (Some ob)
  note pre = completion_preconditions[OF inv live st Some]
  have fin: "finite (dom (operations s))" using inv by (rule finite_operations)
  have pdom: "p \<in> dom (operations s)" using live by auto
  have "card (dom (operations s)) > 0" using fin pdom by (auto simp: card_gt_0_iff)
  then have c1: "int (card (dom (operations s) - {p})) = int (card (dom (operations s))) - 1"
    using fin pdom by (simp add: card_Diff_singleton of_nat_diff)
  show ?thesis
  proof (cases "num_active_operations ob - 1 = 0 \<and> pending_operations ob \<noteq> []")
    case False
    then have c: "num_active_operations ob - 1 \<noteq> 0 \<or> pending_operations ob = []" by blast
    let ?t = "(if cleanup op then [Cleanup p] else []) @
              [DeleteWrapper p, DeleteCallback p, Decrement (object op), Unpin]"
    have s': "s' = s\<lparr>objects := (objects s)(object op \<mapsto>
                ob\<lparr>num_active_operations := num_active_operations ob - 1\<rparr>),
            operations := (operations s)(p := None),
            usage_count := usage_count s - 1,
            trace := trace s @ ?t\<rparr>"
      using res operation_free_plain[OF live Some pre(1) c] by simp
    have "delta_ok s ?t s'"
      unfolding delta_ok_def using Some c1 by (auto simp: s' queue_of_def)
    then show ?thesis by blast
  next
    case True
    then obtain nxt rest where q: "pending_operations ob = nxt # rest"
      by (cases "pending_operations ob") auto
    from True have n0: "num_active_operations ob - 1 = 0" by simp
    from pre(2)[OF q] obtain nop where nop: "nxt \<noteq> p" "operations s nxt = Some nop"
      "object nop = object op" by blast
    let ?t = "(if cleanup op then [Cleanup p] else []) @
              [DeleteWrapper p, DeleteCallback p, Decrement (object op),
               PopHead (object op) nxt, Increment (object op), JobStart nxt, Unpin]"
    have s': "s' = s\<lparr>objects := (objects s)(object op \<mapsto>
                ob\<lparr>pending_operations := rest, num_active_operations := 1\<rparr>),
            operations := (operations s)(nxt \<mapsto> nop\<lparr>job_started := True\<rparr>, p := None),
            usage_count := usage_count s - 1,
            trace := trace s @ ?t\<rparr>"
      using res operation_free_pop[OF live Some pre(1) n0 q nop(2,3,1)] by simp
    have d: "dom ((operations s)(nxt \<mapsto> nop\<lparr>job_started := True\<rparr>, p := None)) =
             dom (operations s) - {p}"
      using nop by auto
    have "delta_ok s ?t s'"
      unfolding delta_ok_def using Some c1 q d by (auto simp: s' queue_of_def)
    then show ?thesis by blast
  qed
qed

lemma queue_of_frame [simp]:
  "queue_of (s\<lparr>operations := a\<rparr>) = queue_of s"
  "queue_of (s\<lparr>trace := b\<rparr>) = queue_of s"
  "queue_of (s\<lparr>usage_count := c\<rparr>) = queue_of s"
  "queue_of (s\<lparr>object_by_handle := d\<rparr>) = queue_of s"
  "queue_of (s\<lparr>manager_freed := e\<rparr>) = queue_of s"
  "queue_of (s\<lparr>manager_cancellable := f\<rparr>) = queue_of s"
  "queue_of (s\<lparr>module_operations := g\<rparr>) = queue_of s"
  "queue_of (s\<lparr>next_object := h\<rparr>) = queue_of s"
  "queue_of (s\<lparr>next_operation := i\<rparr>) = queue_of s"
  "queue_of (s\<lparr>next_module_operation := j\<rparr>) = queue_of s"
  by (simp_all add: fun_eq_iff queue_of_def)

lemma queue_of_objects:
  assumes "\<And>oid. map_option pending_operations (objects s' oid) =
                 map_option pending_operations (objects s oid)"
  shows "queue_of s' = queue_of s"
proof
  fix oid
  show "queue_of s' oid = queue_of s oid"
    using assms[of oid] by (auto simp: queue_of_def split: option.splits)
qed

lemma delta_schedule_when_idle:
  assumes "invariant E s" "operations s self = Some me" "\<not> job_started me"
    "blocked_operation me = None"
    "\<And>oid ob. objects s oid = Some ob \<Longrightarrow> self \<notin> set (pending_operations ob)"
    "gum_v8_object_operation_schedule_when_idle self (Some ds) s = Inr s'"
  shows "\<exists>t. delta_ok s t s'"
  using assms
proof (induction ds arbitrary: s me)
  case Nil
  then show ?case using delta_try_schedule[of s self me s'] by simp
next
  case (Cons d ds)
  show ?case
  proof (cases "objects s d")
    case None
    then show ?thesis using Cons.prems(6) by simp
  next
    case (Some dep)
    show ?thesis
    proof (cases "num_active_operations dep = 0")
      case True
      then have "gum_v8_object_operation_schedule_when_idle self (Some ds) s = Inr s'"
        using Cons.prems(6) Some by simp
      then show ?thesis using Cons.IH[OF Cons.prems(1-5)] by simp
    next
      case False
      note b = invariantD(3)[OF Cons.prems(1)]
      have ne: "self \<noteq> next_operation s"
        using Cons.prems(2) bounds_fresh_op[OF b] by auto
      let ?s1 = "arm_probe self d dep me s"
      have r: "gum_v8_object_operation_schedule_when_idle self (Some ds) ?s1 = Inr s'"
        using Cons.prems(6) schedule_when_idle_busy[OF Some False Cons.prems(2) ne] by simp
      have i1: "invariant E ?s1"
        using Cons.prems(1) Some Cons.prems(2-5) by (rule arm_probe_invariant)
      have me1: "operations ?s1 self =
          Some (me\<lparr>pending_dependencies := next_operation s # pending_dependencies me\<rparr>)"
        by (simp add: arm_probe_def)
      have unq1: "\<And>oid ob. objects ?s1 oid = Some ob \<Longrightarrow> self \<notin> set (pending_operations ob)"
        using Cons.prems(5) Some ne by (auto simp: arm_probe_def split: if_splits)
      have "\<exists>t. delta_ok ?s1 t s'"
        using Cons.IH[OF i1 me1 _ _ unq1 r] Cons.prems(3,4) by simp
      then obtain t where "delta_ok ?s1 t s'" by blast
      from delta_ok_trans[OF delta_arm_probe[OF Cons.prems(1) Some Cons.prems(2)] this]
      show ?thesis by blast
    qed
  qed
qed

lemma perform_decompose:
  assumes inv: "invariant {} s" and live: "operations s p = Some probe"
    and st: "job_started probe" and bl: "blocked_operation probe = Some b"
    and res: "gum_v8_try_schedule_if_idle_operation_perform p s = Inr s'"
  shows "\<exists>bo s2. operations s b = Some bo \<and> p \<in> set (pending_dependencies bo) \<and>
           b \<noteq> p \<and> \<not> job_started bo \<and>
           invariant {p} (s\<lparr>operations := (operations s)(b \<mapsto>
              bo\<lparr>pending_dependencies := remove1 p (pending_dependencies bo)\<rparr>)\<rparr>) \<and>
           gum_v8_object_operation_try_schedule_when_idle b
             (s\<lparr>operations := (operations s)(b \<mapsto>
              bo\<lparr>pending_dependencies := remove1 p (pending_dependencies bo)\<rparr>)\<rparr>) = Inr s2 \<and>
           invariant {p} s2 \<and> operations s2 p = Some probe \<and>
           gum_v8_object_operation_free p s2 = Inr s'"
proof -
  note sch = invariantD(1)[OF inv]
  from probe_blockedD[OF sched_okD(5)[OF sch] live bl]
  obtain bo where bo: "operations s b = Some bo" "p \<in> set (pending_dependencies bo)" by auto
  have pd: "pending_dependencies probe = []"
    using probe_pendingD[OF sched_okD(5)[OF sch] live bl] .
  have ne: "b \<noteq> p" using bo live pd by auto
  have nst: "\<not> job_started bo"
    using sched_okD(4)[OF sch] bo unfolding started_ok_def by fastforce
  have unq: "\<And>oid ob. objects s oid = Some ob \<Longrightarrow> b \<notin> set (pending_operations ob)"
    using queuedD[OF sched_okD(3)[OF sch]] bo by fastforce
  let ?bo' = "bo\<lparr>pending_dependencies := remove1 p (pending_dependencies bo)\<rparr>"
  let ?s1 = "s\<lparr>operations := (operations s)(b \<mapsto> ?bo')\<rparr>"
  have i1: "invariant {p} ?s1"
  proof (rule invariantI)
    show "sched_ok {p} (objects ?s1) (operations ?s1)"
      using sched_resolve[OF sch bo(1), of p] by simp
    show "registry_ok (object_by_handle ?s1) (objects ?s1)"
      using invariantD(2)[OF inv] by simp
    show "bounds ?s1"
      using invariantD(3)[OF inv]
      by (rule bounds_shrink) (use bo in \<open>auto split: if_splits\<close>)
    show "manager_freed ?s1 \<Longrightarrow> object_by_handle ?s1 = []"
      using invariantD(4)[OF inv] by simp
  qed
  from res obtain s2 where
    s2: "gum_v8_object_operation_try_schedule_when_idle b ?s1 = Inr s2"
    and fin: "gum_v8_object_operation_free p s2 = Inr s'"
    using live bl bo(1)
    by (auto simp: gum_v8_try_schedule_if_idle_operation_perform_def Let_def
        gum_v8_object_operation_finish_def split: sum.splits)
  have i2: "invariant {p} s2"
    using i1 _ _ _ s2
  proof (rule try_schedule_invariant)
    show "operations ?s1 b = Some ?bo'" by simp
    show "\<not> job_started ?bo'" using nst by simp
    show "\<And>ob. objects ?s1 (object ?bo') = Some ob \<Longrightarrow> b \<notin> set (pending_operations ob)"
      using unq by simp
  qed
  have "operations s2 p = Some probe"
    using try_schedule_frame(1)[OF s2, of p] ne live by simp
  then show ?thesis using bo ne nst i1 s2 i2 fin by blast
qed

lemma delta_perform:
  assumes inv: "invariant {} s" and live: "operations s p = Some probe"
    and st: "job_started probe" and bl: "blocked_operation probe = Some b"
    and res: "gum_v8_try_schedule_if_idle_operation_perform p s = Inr s'"
  shows "\<exists>t. delta_ok s t s'"
proof -
  from perform_decompose[OF assms] obtain bo s2 where
    bo: "operations s b = Some bo"
    and s2: "gum_v8_object_operation_try_schedule_when_idle b
             (s\<lparr>operations := (operations s)(b \<mapsto>
              bo\<lparr>pending_dependencies := remove1 p (pending_dependencies bo)\<rparr>)\<rparr>) = Inr s2"
    and i2: "invariant {p} s2" and p2: "operations s2 p = Some probe"
    and fin: "gum_v8_object_operation_free p s2 = Inr s'"
    by blast
  let ?s1 = "s\<lparr>operations := (operations s)(b \<mapsto>
              bo\<lparr>pending_dependencies := remove1 p (pending_dependencies bo)\<rparr>)\<rparr>"
  have "dom (operations ?s1) = dom (operations s)" using bo by auto
  then have d0: "delta_ok s [] ?s1"
    by (intro delta_ok_refl) (simp add: history_view_def)
  have "operations ?s1 b =
      Some (bo\<lparr>pending_dependencies := remove1 p (pending_dependencies bo)\<rparr>)" by simp
  from delta_try_schedule[OF this s2] obtain t1 where d1: "delta_ok ?s1 t1 s2" by blast
  from delta_operation_free[OF i2 p2 st fin] obtain t2 where d2: "delta_ok s2 t2 s'" by blast
  from delta_ok_trans[OF delta_ok_trans[OF d0 d1] d2] show ?thesis by blast
qed

lemma view_cancel_object: "cancel_object oid s = Inr s' \<Longrightarrow> history_view s' = history_view s"
  by (auto simp: cancel_object_def history_view_def split: option.splits
      intro!: queue_of_objects)

lemma view_flush_objects: "flush_objects vs s = Inr s' \<Longrightarrow> history_view s' = history_view s"
proof (induction vs arbitrary: s)
  case Nil
  then show ?case by simp
next
  case (Cons v vs)
  then show ?case by (auto split: sum.splits dest: view_cancel_object)
qed

lemma view_object_free: "gum_v8_object_free oid s = Inr s' \<Longrightarrow> history_view s' = history_view s"
  by (auto simp: gum_v8_object_free_def history_view_def queue_of_def fun_eq_iff
      split: option.splits if_splits)

lemma view_remove_all:
  "g_hash_table_remove_all vs s = Inr s' \<Longrightarrow> history_view s' = history_view s"
proof (induction vs arbitrary: s)
  case Nil
  then show ?case by simp
next
  case (Cons v vs)
  then show ?case by (auto split: sum.splits dest: view_object_free)
qed

lemma view_table [simp]: "history_view (s\<lparr>object_by_handle := tbl\<rparr>) = history_view s"
  by (simp add: history_view_def)

lemma view_manager_flags [simp]:
  "history_view (s\<lparr>manager_freed := f\<rparr>) = history_view s"
  "history_view (s\<lparr>manager_cancellable := c\<rparr>) = history_view s"
  by (simp_all add: history_view_def)

lemma view_step_manager:
  assumes "bounds s"
  shows "gum_v8_object_manager_flush s = Inr s' \<Longrightarrow> history_view s' = history_view s"
    and "gum_v8_object_manager_cancel h s = Inr (found, s') \<Longrightarrow> history_view s' = history_view s"
    and "gum_v8_object_manager_free s = Inr s' \<Longrightarrow> history_view s' = history_view s"
    and "gum_v8_object_on_weak_notify oid s = Inr s' \<Longrightarrow> history_view s' = history_view s"
    and "gum_v8_object_manager_add h s = Inr (oid, s') \<Longrightarrow> history_view s' = history_view s"
proof -
  show "gum_v8_object_manager_flush s = Inr s' \<Longrightarrow> history_view s' = history_view s"
    by (auto simp: gum_v8_object_manager_flush_def split: if_splits sum.splits
        dest: view_flush_objects)
  show "gum_v8_object_manager_cancel h s = Inr (found, s') \<Longrightarrow> history_view s' = history_view s"
    by (auto simp: gum_v8_object_manager_cancel_def split: if_splits sum.splits option.splits
        dest: view_cancel_object)
  show "gum_v8_object_manager_free s = Inr s' \<Longrightarrow> history_view s' = history_view s"
    by (auto simp: gum_v8_object_manager_free_def split: if_splits sum.splits
        dest!: view_remove_all)
  show "gum_v8_object_on_weak_notify oid s = Inr s' \<Longrightarrow> history_view s' = history_view s"
    by (auto simp: gum_v8_object_on_weak_notify_def g_hash_table_remove_def
        split: if_splits option.splits dest!: view_object_free)
  have fresh: "history_view (s\<lparr>objects := (objects s)(next_object s \<mapsto>
        \<lparr>handle = h, cancellable = False, num_active_operations = 0, pending_operations = []\<rparr>),
        next_object := Suc (next_object s)\<rparr>) = history_view s"
    using bounds_fresh_obj[OF assms] by (auto simp: history_view_def queue_of_def fun_eq_iff)
  show "gum_v8_object_manager_add h s = Inr (oid, s') \<Longrightarrow> history_view s' = history_view s"
    using fresh
    by (auto simp: gum_v8_object_manager_add_def g_hash_table_insert_def Let_def
        split: if_splits sum.splits option.splits dest!: view_object_free)
qed

lemma delta_module_operation_new:
  assumes "bounds s" "gum_v8_module_operation_new cl s = Inr (m, s')"
  shows "delta_ok s [Pin] s'"
proof -
  have fresh: "next_module_operation s \<notin> dom (module_operations s)"
    using assms(1) unfolding bounds_def by fastforce
  have s': "s' = gum_v8_core_pin
                     (s\<lparr>module_operations := (module_operations s)(next_module_operation s \<mapsto>
                           \<lparr>module_cleanup = cl\<rparr>),
                         next_module_operation := Suc (next_module_operation s)\<rparr>)"
    using assms(2) by (auto simp: gum_v8_module_operation_new_def Let_def split: if_splits)
  show ?thesis
    unfolding delta_ok_def s'
    using fresh finite_module_operations[OF assms(1)]
    by (simp add: gum_v8_core_pin_def log_action_def queue_of_def)
qed

lemma delta_module_operation_free:
  assumes "bounds s" "gum_v8_module_operation_free m s = Inr s'"
  shows "\<exists>t. delta_ok s t s'"
proof (cases "module_operations s m")
  case None
  then show ?thesis using assms(2) by (simp add: gum_v8_module_operation_free_def)
next
  case (Some mo)
  let ?t = "(if module_cleanup mo then [ModuleCleanup m] else []) @
            [ModuleDeleteCallback m, Unpin]"
  have fin: "finite (dom (module_operations s))" using assms(1) by (rule finite_module_operations)
  have mdom: "m \<in> dom (module_operations s)" using Some by auto
  have "card (dom (module_operations s)) > 0" using fin mdom by (auto simp: card_gt_0_iff)
  then have c1: "int (card (dom (module_operations s) - {m})) =
      int (card (dom (module_operations s))) - 1"
    using fin mdom by (simp add: card_Diff_singleton of_nat_diff)
  have "delta_ok s ?t s'"
    using assms(2) Some c1
    by (auto simp: gum_v8_module_operation_free_def Let_def gum_v8_core_unpin_def log_action_def
        delta_ok_def queue_of_def)
  then show ?thesis by blast
qed

lemma step_delta:
  assumes inv: "invariant {} s" and perm: "permitted s e" and res: "step e s = Inr s'"
  shows "\<exists>t. delta_ok s t s'"
proof (cases e)
  case (ManagerAdd h)
  then obtain oid where "gum_v8_object_manager_add h s = Inr (oid, s')"
    using res by (auto split: sum.splits)
  from view_step_manager(5)[OF invariantD(3)[OF inv] this] show ?thesis
    using delta_ok_refl by blast
next
  case (ManagerCancel h)
  then obtain found where "gum_v8_object_manager_cancel h s = Inr (found, s')"
    using res by (auto split: sum.splits)
  from view_step_manager(2)[OF invariantD(3)[OF inv] this] show ?thesis
    using delta_ok_refl by blast
next
  case ManagerFlush
  then show ?thesis
    using res view_step_manager(1)[OF invariantD(3)[OF inv], of s'] delta_ok_refl by auto
next
  case ManagerFree
  then show ?thesis
    using res view_step_manager(3)[OF invariantD(3)[OF inv], of s'] delta_ok_refl by auto
next
  case (WeakNotify oid)
  then show ?thesis
    using res view_step_manager(4)[OF invariantD(3)[OF inv], of oid s'] delta_ok_refl by auto
next
  case (OperationNew oid cl)
  then obtain p where "gum_v8_object_operation_new oid cl s = Inr (p, s')"
    using res by (auto split: sum.splits)
  from delta_operation_new[OF inv this] show ?thesis by blast
next
  case (Schedule p)
  then have u: "unsubmitted s p" and r: "gum_v8_object_operation_schedule p s = Inr s'"
    using perm res by simp_all
  from unsubmittedD[OF u] obtain op where op: "operations s p = Some op" by blast
  show ?thesis
  proof (cases "objects s (object op)")
    case None
    then show ?thesis using r op by (simp add: gum_v8_object_operation_schedule_def)
  next
    case (Some ob)
    from delta_schedule[OF op Some r] show ?thesis by blast
  qed
next
  case (ScheduleWhenIdle p deps)
  then have u: "unsubmitted s p"
    and r: "gum_v8_object_operation_schedule_when_idle p deps s = Inr s'"
    using perm res by simp_all
  from unsubmittedD[OF u] obtain op where op: "operations s p = Some op" "\<not> job_started op"
    "pending_dependencies op = []" "blocked_operation op = None"
    "\<And>ob. objects s (object op) = Some ob \<Longrightarrow> p \<notin> set (pending_operations ob)"
    by blast
  show ?thesis
  proof (cases deps)
    case None
    then show ?thesis using delta_try_schedule[OF op(1), of s'] r by simp
  next
    case (Some ds)
    have "\<And>oid ob. objects s oid = Some ob \<Longrightarrow> p \<notin> set (pending_operations ob)"
      using unqueued_everywhere[OF inv op(1,5)] .
    from delta_schedule_when_idle[OF inv op(1,2,4) this] r Some show ?thesis by simp
  qed
next
  case (Perform p)
  then obtain probe b where "operations s p = Some probe" "job_started probe"
    "blocked_operation probe = Some b"
    using perm by (auto split: option.splits)
  from delta_perform[OF inv this] show ?thesis using res Perform by simp
next
  case (Finish p)
  then obtain op where "operations s p = Some op" "job_started op"
    using perm by (auto split: option.splits)
  from delta_operation_free[OF inv this] show ?thesis
    using res Finish by (simp add: gum_v8_object_operation_finish_def)
next
  case (ModuleOperationNew cl)
  then obtain m where "gum_v8_module_operation_new cl s = Inr (m, s')"
    using res by (auto split: sum.splits)
  from delta_module_operation_new[OF invariantD(3)[OF inv] this] show ?thesis by blast
next
  case (ModuleFinish m)
  then show ?thesis
    using res delta_module_operation_free[OF invariantD(3)[OF inv], of m s'] by simp
qed

lemma exec_history:
  "invariant {} s \<Longrightarrow> history_ok u s \<Longrightarrow> exec es s = Some s' \<Longrightarrow> history_ok u s'"
proof (induction es arbitrary: s)
  case Nil
  then show ?case by simp
next
  case (Cons e es)
  from Cons.prems(3) obtain s1 where perm: "permitted s e" and st: "step e s = Inr s1"
    and rest: "exec es s1 = Some s'"
    by (auto split: if_splits sum.splits)
  from step_delta[OF Cons.prems(1) perm st] obtain t where "delta_ok s t s1" by blast
  from delta_ok_history[OF Cons.prems(2) this] have h1: "history_ok u s1" .
  from step_invariant[OF Cons.prems(1) perm st] have i1: "invariant {} s1" .
  from Cons.IH[OF i1 h1 rest] show ?case .
qed

lemma init_history: "history_ok u (gum_v8_object_manager_init u)"
  by (simp add: history_ok_def pins_ok_def fifo_ok_def gum_v8_object_manager_init_def
      queue_of_def)

lemma reachable_history:
  "exec es (gum_v8_object_manager_init u) = Some s \<Longrightarrow> history_ok u s"
  using init_invariant init_history by (rule exec_history)

lemma prefix_popped:
  assumes "xs @ q = us @ b # ws" "length us < length xs"
  shows "\<exists>rs. xs = us @ b # rs"
proof -
  have "xs = take (length xs) (us @ b # ws)" using assms(1) by (metis append_eq_conv_conj)
  also have "\<dots> = us @ take (length xs - length us) (b # ws)" using assms(2) by simp
  also have "\<dots> = us @ b # take (length xs - length us - 1) ws"
    using assms(2) by (cases "length xs - length us") auto
  finally show ?thesis by blast
qed

lemma busy_arm_probe [simp]:
  assumes "objects s d = Some dep"
  shows "busy_dependencies (arm_probe self d dep me s) ds = busy_dependencies s ds"
  unfolding busy_dependencies_def
  by (rule filter_cong) (use assms in \<open>auto simp: arm_probe_def\<close>)

lemma try_schedule_result:
  assumes "operations s p = Some op" "objects s (object op) = Some ob"
  shows "\<exists>s'. gum_v8_object_operation_try_schedule_when_idle p s = Inr s' \<and>
           next_operation s' = next_operation s \<and>
           (\<forall>q. q \<noteq> p \<longrightarrow> operations s' q = operations s q) \<and>
           (\<exists>op'. operations s' p = Some op' \<and>
              pending_dependencies op' = pending_dependencies op \<and>
              (pending_dependencies op \<noteq> [] \<longrightarrow> \<not> job_started op' = (\<not> job_started op))) \<and>
           (\<forall>oid x. x \<in> set (queue_of s oid) \<longrightarrow> x \<in> set (queue_of s' oid))"
  using assms by (auto simp: try_schedule_eq[OF assms] queue_of_def)

lemma schedule_when_idle_result:
  assumes "invariant E s" "operations s self = Some me" "\<not> job_started me"
    "blocked_operation me = None"
    "\<And>oid ob. objects s oid = Some ob \<Longrightarrow> self \<notin> set (pending_operations ob)"
    "\<And>d. d \<in> set ds \<Longrightarrow> objects s d \<noteq> None"
    "objects s (object me) \<noteq> None"
  shows "\<exists>s'. gum_v8_object_operation_schedule_when_idle self (Some ds) s = Inr s' \<and>
           next_operation s' = next_operation s + length (busy_dependencies s ds) \<and>
           (\<forall>q. q \<noteq> self \<longrightarrow> q < next_operation s \<longrightarrow> operations s' q = operations s q) \<and>
           (\<forall>oid x. x \<in> set (queue_of s oid) \<longrightarrow> x \<in> set (queue_of s' oid)) \<and>
           (\<forall>i < length (busy_dependencies s ds).
              operations s' (next_operation s + i) =
                Some (probe_for self (busy_dependencies s ds ! i)) \<and>
              next_operation s + i \<in> set (queue_of s' (busy_dependencies s ds ! i))) \<and>
           (\<exists>me'. operations s' self = Some me' \<and>
              pending_dependencies me' =
                rev [next_operation s ..< next_operation s + length (busy_dependencies s ds)] @
                pending_dependencies me \<and>
              (pending_dependencies me' \<noteq> [] \<longrightarrow> \<not> job_started me'))"
  using assms
proof (induction ds arbitrary: s me)
  case Nil
  from Nil.prems(7) obtain ob where ob: "objects s (object me) = Some ob" by auto
  from try_schedule_result[OF Nil.prems(2) ob] Nil.prems(3)
  show ?case by (auto simp: busy_dependencies_def)
next
  case (Cons d ds)
  from Cons.prems(6)[of d] obtain dep where dep: "objects s d = Some dep" by auto
  show ?case
  proof (cases "num_active_operations dep = 0")
    case True
    have e: "gum_v8_object_operation_schedule_when_idle self (Some (d # ds)) s =
             gum_v8_object_operation_schedule_when_idle self (Some ds) s"
      using dep True by simp
    have b: "busy_dependencies s (d # ds) = busy_dependencies s ds"
      using dep True by (simp add: busy_dependencies_def)
    show ?thesis
      unfolding e b
      by (rule Cons.IH[OF Cons.prems(1-5) _ Cons.prems(7)]) (use Cons.prems(6) in auto)
  next
    case False
    let ?n = "next_operation s"
    note bd = invariantD(3)[OF Cons.prems(1)]
    have fresh: "operations s ?n = None" by (rule bounds_fresh_op[OF bd])
    have ne: "self \<noteq> ?n" using Cons.prems(2) fresh by auto
    let ?s1 = "arm_probe self d dep me s"
    let ?me1 = "me\<lparr>pending_dependencies := ?n # pending_dependencies me\<rparr>"
    have e: "gum_v8_object_operation_schedule_when_idle self (Some (d # ds)) s =
             gum_v8_object_operation_schedule_when_idle self (Some ds) ?s1"
      by (rule schedule_when_idle_busy[OF dep False Cons.prems(2) ne])
    have b: "busy_dependencies s (d # ds) = d # busy_dependencies s ds"
      using dep False by (simp add: busy_dependencies_def)
    have i1: "invariant E ?s1"
      using Cons.prems(1) dep Cons.prems(2-5) by (rule arm_probe_invariant)
    have me1: "operations ?s1 self = Some ?me1" by (simp add: arm_probe_def)
    have unq1: "\<And>oid ob. objects ?s1 oid = Some ob \<Longrightarrow> self \<notin> set (pending_operations ob)"
      using Cons.prems(5) dep ne by (auto simp: arm_probe_def split: if_splits)
    have live1: "\<And>x. x \<in> set ds \<Longrightarrow> objects ?s1 x \<noteq> None"
      using Cons.prems(6) by (auto simp: arm_probe_def)
    have own1: "objects ?s1 (object ?me1) \<noteq> None"
      using Cons.prems(7) by (auto simp: arm_probe_def)
    have n1: "next_operation ?s1 = Suc ?n" by (simp add: arm_probe_def)
    let ?bs = "busy_dependencies s ds"
    have bs1: "busy_dependencies ?s1 ds = ?bs" using dep by (rule busy_arm_probe)
    have ih: "\<exists>s'. gum_v8_object_operation_schedule_when_idle self (Some ds) ?s1 = Inr s' \<and>
           next_operation s' = next_operation ?s1 + length (busy_dependencies ?s1 ds) \<and>
           (\<forall>q. q \<noteq> self \<longrightarrow> q < next_operation ?s1 \<longrightarrow>
              operations s' q = operations ?s1 q) \<and>
           (\<forall>oid x. x \<in> set (queue_of ?s1 oid) \<longrightarrow> x \<in> set (queue_of s' oid)) \<and>
           (\<forall>i < length (busy_dependencies ?s1 ds).
              operations s' (next_operation ?s1 + i) =
                Some (probe_for self (busy_dependencies ?s1 ds ! i)) \<and>
              next_operation ?s1 + i \<in> set (queue_of s' (busy_dependencies ?s1 ds ! i))) \<and>
           (\<exists>me'. operations s' self = Some me' \<and>
              pending_dependencies me' =
                rev [next_operation ?s1 ..<
                     next_operation ?s1 + length (busy_dependencies ?s1 ds)] @
                pending_dependencies ?me1 \<and>
              (pending_dependencies me' \<noteq> [] \<longrightarrow> \<not> job_started me'))"
    proof (rule Cons.IH)
      show "invariant E ?s1" by (rule i1)
      show "operations ?s1 self = Some ?me1" by (rule me1)
      show "\<not> job_started ?me1" using Cons.prems(3) by simp
      show "blocked_operation ?me1 = None" using Cons.prems(4) by simp
      show "\<And>oid ob. objects ?s1 oid = Some ob \<Longrightarrow> self \<notin> set (pending_operations ob)"
        by (rule unq1)
      show "\<And>x. x \<in> set ds \<Longrightarrow> objects ?s1 x \<noteq> None" by (rule live1)
      show "objects ?s1 (object ?me1) \<noteq> None" by (rule own1)
    qed
    then obtain s' where r: "gum_v8_object_operation_schedule_when_idle self (Some ds) ?s1 = Inr s'"
      and nx: "next_operation s' = Suc ?n + length ?bs"
      and fr: "\<forall>q. q \<noteq> self \<longrightarrow> q < Suc ?n \<longrightarrow> operations s' q = operations ?s1 q"
      and qs: "\<forall>oid x. x \<in> set (queue_of ?s1 oid) \<longrightarrow> x \<in> set (queue_of s' oid)"
      and pr: "\<forall>i < length ?bs.
              operations s' (Suc ?n + i) = Some (probe_for self (?bs ! i)) \<and>
              Suc ?n + i \<in> set (queue_of s' (?bs ! i))"
      and mine: "\<exists>me'. operations s' self = Some me' \<and>
              pending_dependencies me' = rev [Suc ?n ..< Suc ?n + length ?bs] @
                pending_dependencies ?me1 \<and>
              (pending_dependencies me' \<noteq> [] \<longrightarrow> \<not> job_started me')"
      unfolding bs1 n1 by blast
    have c1: "next_operation s' = ?n + length (busy_dependencies s (d # ds))"
      using nx b by simp
    have c2: "\<forall>q. q \<noteq> self \<longrightarrow> q < ?n \<longrightarrow> operations s' q = operations s q"
      using fr by (auto simp: arm_probe_def)
    have c3: "\<forall>oid x. x \<in> set (queue_of s oid) \<longrightarrow> x \<in> set (queue_of s' oid)"
    proof (intro allI impI)
      fix oid x assume "x \<in> set (queue_of s oid)"
      then have "x \<in> set (queue_of ?s1 oid)"
        using dep by (auto simp: queue_of_def arm_probe_def)
      then show "x \<in> set (queue_of s' oid)" using qs by blast
    qed
    have p0: "operations s' ?n = Some (probe_for self d)"
      using fr ne by (auto simp: arm_probe_def probe_for_def)
    have q0: "?n \<in> set (queue_of s' d)"
    proof -
      have "?n \<in> set (queue_of ?s1 d)" by (simp add: queue_of_def arm_probe_def)
      then show ?thesis using qs by blast
    qed
    have c4: "\<forall>i < length (busy_dependencies s (d # ds)).
              operations s' (?n + i) = Some (probe_for self (busy_dependencies s (d # ds) ! i)) \<and>
              ?n + i \<in> set (queue_of s' (busy_dependencies s (d # ds) ! i))"
    proof (intro allI impI)
      fix i assume i: "i < length (busy_dependencies s (d # ds))"
      show "operations s' (?n + i) = Some (probe_for self (busy_dependencies s (d # ds) ! i)) \<and>
              ?n + i \<in> set (queue_of s' (busy_dependencies s (d # ds) ! i))"
      proof (cases i)
        case 0
        then show ?thesis using p0 q0 b by simp
      next
        case (Suc j)
        then have "j < length ?bs" using i b by simp
        then show ?thesis using pr Suc b by simp
      qed
    qed
    have "[?n ..< ?n + Suc (length ?bs)] = ?n # [Suc ?n ..< ?n + Suc (length ?bs)]"
      by (rule upt_conv_Cons) simp
    moreover have "?n + Suc (length ?bs) = Suc ?n + length ?bs" by simp
    ultimately have "[?n ..< ?n + Suc (length ?bs)] = ?n # [Suc ?n ..< Suc ?n + length ?bs]"
      by (simp only:)
    then have "rev [?n ..< ?n + Suc (length ?bs)] = rev [Suc ?n ..< Suc ?n + length ?bs] @ [?n]"
      by (simp only: rev.simps)
    moreover have "length (busy_dependencies s (d # ds)) = Suc (length ?bs)" using b by simp
    moreover have "pending_dependencies ?me1 = ?n # pending_dependencies me" by simp
    ultimately have rv: "rev [Suc ?n ..< Suc ?n + length ?bs] @ pending_dependencies ?me1 =
          rev [?n ..< ?n + length (busy_dependencies s (d # ds))] @ pending_dependencies me"
      by (simp only: append_Cons append_Nil append_assoc)
    have c5: "\<exists>me'. operations s' self = Some me' \<and>
              pending_dependencies me' =
                rev [?n ..< ?n + length (busy_dependencies s (d # ds))] @
                pending_dependencies me \<and>
              (pending_dependencies me' \<noteq> [] \<longrightarrow> \<not> job_started me')"
      using mine unfolding rv by blast
    show ?thesis unfolding e using r c1 c2 c3 c4 c5 by blast
  qed
qed

lemma blocked_operation_waits:
  assumes inv: "invariant {} s" and live: "operations s p = Some probe"
    and bl: "blocked_operation probe = Some b"
  shows "\<exists>bo. operations s b = Some bo \<and> p \<in> set (pending_dependencies bo) \<and>
           \<not> job_started bo \<and> (\<forall>oid. b \<notin> set (queue_of s oid))"
proof -
  note sch = invariantD(1)[OF inv]
  from probe_blockedD[OF sched_okD(5)[OF sch] live bl]
  obtain bo where bo: "operations s b = Some bo" "p \<in> set (pending_dependencies bo)" by auto
  have nst: "\<not> job_started bo"
    using sched_okD(4)[OF sch] bo unfolding started_ok_def by fastforce
  have "b \<notin> set (queue_of s oid)" for oid
  proof (cases "objects s oid")
    case None
    then show ?thesis by (simp add: queue_of_def)
  next
    case (Some ob)
    then show ?thesis
      using queuedD[OF sched_okD(3)[OF sch] Some, of b] bo by (auto simp: queue_of_def)
  qed
  then show ?thesis using bo nst by blast
qed

section \<open>Effects of single calls\<close>

text \<open>What freeing an operation leaves alone, and when it succeeds\<close>

lemma operation_free_frame:
  assumes "gum_v8_object_operation_free p s = Inr s'"
  shows "operations s' p = None"
    and "\<And>q qo. q \<noteq> p \<Longrightarrow> operations s q = Some qo \<Longrightarrow>
           \<exists>qo'. operations s' q = Some qo' \<and>
             pending_dependencies qo' = pending_dependencies qo \<and>
             object qo' = object qo \<and> (job_started qo \<longrightarrow> job_started qo')"
    and "\<And>q oid. q \<noteq> p \<Longrightarrow> q \<in> set (queue_of s oid) \<Longrightarrow>
           q \<in> set (queue_of s' oid) \<or> (\<exists>qo'. operations s' q = Some qo' \<and> job_started qo')"
  using assms
  by (auto simp: gum_v8_object_operation_free_def log_action_def gum_v8_core_unpin_def Let_def
      gum_v8_object_operation_schedule_def gum_script_job_start_on_js_thread_def queue_of_def
      split: option.splits if_splits list.splits sum.splits)

lemma operation_free_succeeds:
  assumes inv: "invariant E s" and live: "operations s p = Some op" and st: "job_started op"
    and ob: "objects s (object op) = Some ob"
  shows "\<exists>s'. gum_v8_object_operation_free p s = Inr s'"
proof (cases "num_active_operations ob - 1 = 0 \<and> pending_operations ob \<noteq> []")
  case False
  then have c: "num_active_operations ob - 1 \<noteq> 0 \<or> pending_operations ob = []" by blast
  show ?thesis
    using operation_free_plain[OF live ob completion_preconditions(1)[OF inv live st ob] c]
    by blast
next
  case True
  then obtain nxt rest where q: "pending_operations ob = nxt # rest"
    by (cases "pending_operations ob") auto
  from completion_preconditions(2)[OF inv live st ob q]
  obtain nop where n: "nxt \<noteq> p" "operations s nxt = Some nop" "object nop = object op"
    by blast
  from True have z: "num_active_operations ob - 1 = 0" by blast
  show ?thesis
    using operation_free_pop[OF live ob completion_preconditions(1)[OF inv live st ob] z q
        n(2,3,1)]
    by blast
qed

lemma perform_result:
  assumes inv: "invariant {} s" and live: "operations s p = Some probe"
    and st: "job_started probe" and bl: "blocked_operation probe = Some b"
    and res: "gum_v8_try_schedule_if_idle_operation_perform p s = Inr s'"
  shows "operations s' p = None \<and>
         (\<exists>bo bo'. operations s b = Some bo \<and> operations s' b = Some bo' \<and>
            pending_dependencies bo' = remove1 p (pending_dependencies bo) \<and>
            (pending_dependencies bo' = [] \<longrightarrow>
               job_started bo' \<or> b \<in> set (queue_of s' (object bo'))) \<and>
            (pending_dependencies bo' \<noteq> [] \<longrightarrow>
               \<not> job_started bo' \<and> (\<forall>oid. b \<notin> set (queue_of s' oid))))"
proof -
  from perform_decompose[OF assms] obtain bo s2 where
    bo: "operations s b = Some bo" and ne: "b \<noteq> p"
    and s2: "gum_v8_object_operation_try_schedule_when_idle b
             (s\<lparr>operations := (operations s)(b \<mapsto>
              bo\<lparr>pending_dependencies := remove1 p (pending_dependencies bo)\<rparr>)\<rparr>) = Inr s2"
    and fin: "gum_v8_object_operation_free p s2 = Inr s'"
    by blast
  let ?bo1 = "bo\<lparr>pending_dependencies := remove1 p (pending_dependencies bo)\<rparr>"
  let ?s1 = "s\<lparr>operations := (operations s)(b \<mapsto> ?bo1)\<rparr>"
  have b1: "operations ?s1 b = Some ?bo1" by simp
  have mid: "\<exists>bo2. operations s2 b = Some bo2 \<and>
               pending_dependencies bo2 = remove1 p (pending_dependencies bo) \<and>
               object bo2 = object bo \<and>
               (pending_dependencies bo2 = [] \<longrightarrow>
                  job_started bo2 \<or> b \<in> set (queue_of s2 (object bo)))"
    using s2 b1
    by (auto simp: gum_v8_object_operation_try_schedule_when_idle_def
        gum_v8_object_operation_schedule_def gum_script_job_start_on_js_thread_def
        log_action_def queue_of_def split: option.splits if_splits)
  then obtain bo2 where bo2: "operations s2 b = Some bo2"
    "pending_dependencies bo2 = remove1 p (pending_dependencies bo)"
    "object bo2 = object bo"
    "pending_dependencies bo2 = [] \<longrightarrow> job_started bo2 \<or> b \<in> set (queue_of s2 (object bo))"
    by blast
  from operation_free_frame(2)[OF fin ne bo2(1)] obtain bo' where bo': "operations s' b = Some bo'"
    "pending_dependencies bo' = pending_dependencies bo2" "object bo' = object bo2"
    "job_started bo2 \<longrightarrow> job_started bo'"
    by blast
  have fwd: "job_started bo' \<or> b \<in> set (queue_of s' (object bo'))"
    if e: "pending_dependencies bo' = []"
  proof -
    from e bo'(2) bo2(4) have "job_started bo2 \<or> b \<in> set (queue_of s2 (object bo))" by simp
    then show ?thesis
    proof
      assume "job_started bo2"
      then show ?thesis using bo'(4) by blast
    next
      assume "b \<in> set (queue_of s2 (object bo))"
      from operation_free_frame(3)[OF fin ne this] show ?thesis
        using bo'(1,3) bo2(3) by auto
    qed
  qed
  have inv': "invariant {} s'" using assms by (rule perform_invariant)
  note sch = invariantD(1)[OF inv']
  have bwd: "\<not> job_started bo' \<and> (\<forall>oid. b \<notin> set (queue_of s' oid))"
    if n: "pending_dependencies bo' \<noteq> []"
  proof -
    have nst: "\<not> job_started bo'"
      using sched_okD(4)[OF sch] bo'(1) n unfolding started_ok_def by blast
    have "b \<notin> set (queue_of s' oid)" for oid
    proof (cases "objects s' oid")
      case None
      then show ?thesis by (simp add: queue_of_def)
    next
      case (Some ob)
      then show ?thesis
        using queuedD[OF sched_okD(3)[OF sch] Some, of b] bo'(1) n by (auto simp: queue_of_def)
    qed
    then show ?thesis using nst by blast
  qed
  show ?thesis
    using operation_free_frame(1)[OF fin] bo bo'(1) bo'(2) bo2(2) fwd bwd by auto
qed

lemma perform_succeeds:
  assumes inv: "invariant {} s" and live: "operations s p = Some probe"
    and st: "job_started probe" and bl: "blocked_operation probe = Some b"
    and bo: "operations s b = Some bo"
    and pob: "objects s (object probe) \<noteq> None" and bob: "objects s (object bo) \<noteq> None"
  shows "\<exists>s'. gum_v8_try_schedule_if_idle_operation_perform p s = Inr s'"
proof -
  note sch = invariantD(1)[OF inv]
  have pin: "p \<in> set (pending_dependencies bo)"
    using probe_blockedD[OF sched_okD(5)[OF sch] live bl] bo by auto
  have pd: "pending_dependencies probe = []"
    using probe_pendingD[OF sched_okD(5)[OF sch] live bl] .
  have ne: "b \<noteq> p" using bo live pd pin by auto
  have nst: "\<not> job_started bo"
    using sched_okD(4)[OF sch] bo pin unfolding started_ok_def by fastforce
  have unq: "\<And>oid ob. objects s oid = Some ob \<Longrightarrow> b \<notin> set (pending_operations ob)"
    using queuedD[OF sched_okD(3)[OF sch]] bo pin by fastforce
  let ?bo1 = "bo\<lparr>pending_dependencies := remove1 p (pending_dependencies bo)\<rparr>"
  let ?s1 = "s\<lparr>operations := (operations s)(b \<mapsto> ?bo1)\<rparr>"
  have i1: "invariant {p} ?s1"
  proof (rule invariantI)
    show "sched_ok {p} (objects ?s1) (operations ?s1)"
      using sched_resolve[OF sch bo, of p] by simp
    show "registry_ok (object_by_handle ?s1) (objects ?s1)"
      using invariantD(2)[OF inv] by simp
    show "bounds ?s1"
      using invariantD(3)[OF inv]
      by (rule bounds_shrink) (use bo in \<open>auto split: if_splits\<close>)
    show "manager_freed ?s1 \<Longrightarrow> object_by_handle ?s1 = []"
      using invariantD(4)[OF inv] by simp
  qed
  have b1: "operations ?s1 b = Some ?bo1" by simp
  from bob obtain ob where ob: "objects ?s1 (object ?bo1) = Some ob" by auto
  from try_schedule_result[OF b1 ob] obtain s2 where
    s2: "gum_v8_object_operation_try_schedule_when_idle b ?s1 = Inr s2" by blast
  have i2: "invariant {p} s2"
    using i1 _ _ _ s2
  proof (rule try_schedule_invariant)
    show "operations ?s1 b = Some ?bo1" by simp
    show "\<not> job_started ?bo1" using nst by simp
    show "\<And>ob. objects ?s1 (object ?bo1) = Some ob \<Longrightarrow> b \<notin> set (pending_operations ob)"
      using unq by simp
  qed
  have p2: "operations s2 p = Some probe"
    using try_schedule_frame(1)[OF s2, of p] ne live by simp
  have "objects s2 (object probe) \<noteq> None"
    using try_schedule_frame(4)[OF s2, of "object probe"] pob by simp
  then obtain pob2 where pob2: "objects s2 (object probe) = Some pob2" by auto
  from operation_free_succeeds[OF i2 p2 st pob2] obtain s' where
    "gum_v8_object_operation_free p s2 = Inr s'" by blast
  then show ?thesis
    using live bl bo s2
    by (simp add: gum_v8_try_schedule_if_idle_operation_perform_def Let_def
        gum_v8_object_operation_finish_def)
qed

text \<open>Pins taken and released by single calls\<close>

lemma module_operation_new_pins:
  assumes "bounds s"
  shows "\<exists>m s'. gum_v8_module_operation_new cl s = Inr (m, s') \<and>
           module_operations s m = None \<and> module_operations s' m \<noteq> None \<and>
           usage_count s' = usage_count s + 1"
proof -
  have "module_operations s (next_module_operation s) = None"
    using assms unfolding bounds_def by (cases "module_operations s (next_module_operation s)") auto
  then show ?thesis
    by (simp add: gum_v8_module_operation_new_def gum_v8_core_pin_def log_action_def Let_def)
qed

lemma module_operation_free_unpins:
  assumes "module_operations s m \<noteq> None"
  shows "\<exists>s'. gum_v8_module_operation_free m s = Inr s' \<and>
           module_operations s' m = None \<and> usage_count s' = usage_count s - 1"
  using assms
  by (auto simp: gum_v8_module_operation_free_def gum_v8_core_unpin_def log_action_def Let_def)

lemma operation_new_pins:
  assumes "bounds s" "objects s oid \<noteq> None"
  shows "\<exists>p s'. gum_v8_object_operation_new oid cl s = Inr (p, s') \<and>
           operations s p = None \<and> operations s' p \<noteq> None \<and>
           usage_count s' = usage_count s + 1"
proof -
  have "operations s (next_operation s) = None"
    using assms(1) unfolding bounds_def by (cases "operations s (next_operation s)") auto
  then show ?thesis
    using assms(2)
    by (auto simp: gum_v8_object_operation_new_def gum_v8_core_pin_def log_action_def Let_def)
qed

lemma operation_free_unpins:
  assumes "gum_v8_object_operation_free p s = Inr s'"
  shows "operations s' p = None \<and> usage_count s' = usage_count s - 1"
  using assms
  by (auto simp: gum_v8_object_operation_free_def log_action_def gum_v8_core_unpin_def Let_def
      gum_v8_object_operation_schedule_def gum_script_job_start_on_js_thread_def
      split: option.splits if_splits list.splits sum.splits)

section \<open>Registration of a handle that is already registered\<close>

text \<open>
  C1, as amended. In every state reached by a schedule of calls, with the manager
  not freed, registering a handle that is already in the table does not fail
  and is not rejected: a new object is allocated and takes the place of the
  existing entry under that handle, and the old object is handed to the
  destructor of the table's values, so the call aborts on the destructor's
  assertions when the old object still has active or pending operations.
  Entries of other handles are unchanged.
\<close>

theorem manager_add_replaces_existing:
  assumes "exec es (gum_v8_object_manager_init u) = Some s" and "\<not> manager_freed s"
    and "map_of (object_by_handle s) h = Some old"
  shows "\<exists>ob. objects s old = Some ob \<and> handle ob = h \<and>
           gum_v8_object_manager_add h s =
             (if num_active_operations ob = 0 \<and> pending_operations ob = []
              then Inr (next_object s,
                        s\<lparr>object_by_handle :=
                             map (\<lambda>(k, v). if k = h then (k, next_object s) else (k, v))
                               (object_by_handle s),
                           objects := (objects s)(next_object s \<mapsto>
                             \<lparr>handle = h, cancellable = False, num_active_operations = 0,
                              pending_operations = []\<rparr>, old := None),
                           next_object := Suc (next_object s)\<rparr>)
              else Inl AssertionFailed)"
  using reachable_invariant[OF assms(1)] assms(2,3) by (rule manager_add_existing_eq)

theorem manager_add_replaces_existing_witness:
  "exec [ManagerAdd 7] (gum_v8_object_manager_init 0) \<noteq> None \<and>
   \<not> manager_freed (the (exec [ManagerAdd 7] (gum_v8_object_manager_init 0))) \<and>
   map_of (object_by_handle (the (exec [ManagerAdd 7] (gum_v8_object_manager_init 0)))) 7 = Some 0 \<and>
   fst (projr (gum_v8_object_manager_add 7
     (the (exec [ManagerAdd 7] (gum_v8_object_manager_init 0))))) = 1 \<and>
   object_by_handle (snd (projr (gum_v8_object_manager_add 7
     (the (exec [ManagerAdd 7] (gum_v8_object_manager_init 0)))))) = [(7, 1)]"
  using manager_add_replaces_existing
    [of "[ManagerAdd 7]" 0 "the (exec [ManagerAdd 7] (gum_v8_object_manager_init 0))" 7 0]
  by (simp add: model_defs)

text \<open>
  C1, as stated, fails: after handle 7 has been registered as object 0, a second
  registration of handle 7 succeeds, the table now maps 7 to the new object and
  object 0 has been destroyed.
\<close>

theorem duplicate_registration_counterexample:
  "map_of (object_by_handle (snd (projr (gum_v8_object_manager_add 7
      (gum_v8_object_manager_init 0))))) 7 = Some 0 \<and>
   \<not> isl (gum_v8_object_manager_add 7 (snd (projr (gum_v8_object_manager_add 7
      (gum_v8_object_manager_init 0))))) \<and>
   object_by_handle (snd (projr (gum_v8_object_manager_add 7 (snd (projr
      (gum_v8_object_manager_add 7 (gum_v8_object_manager_init 0))))))) \<noteq>
   object_by_handle (snd (projr (gum_v8_object_manager_add 7
      (gum_v8_object_manager_init 0)))) \<and>
   objects (snd (projr (gum_v8_object_manager_add 7
      (gum_v8_object_manager_init 0)))) 0 \<noteq> None \<and>
   objects (snd (projr (gum_v8_object_manager_add 7 (snd (projr
      (gum_v8_object_manager_add 7 (gum_v8_object_manager_init 0))))))) 0 = None"
  by (simp add: model_defs)

section \<open>Destruction of managed objects\<close>

text \<open>
  C2. In every state reached by a schedule of calls, an object destroyed by its
  weak callback or by freeing the manager has no active operation and an empty
  pending queue: both calls succeed whenever the collaborators permit them, the
  weak callback removes exactly that object, freeing the manager removes all
  objects, and neither call can end in a failed assertion.
\<close>

theorem destroyed_objects_are_idle:
  assumes "exec es (gum_v8_object_manager_init u) = Some s"
  shows "(\<forall>oid. permitted s (WeakNotify oid) \<longrightarrow>
            (\<exists>ob. objects s oid = Some ob \<and> num_active_operations ob = 0 \<and>
               pending_operations ob = [] \<and>
               step (WeakNotify oid) s =
                 Inr (s\<lparr>object_by_handle :=
                          filter (\<lambda>(k, v). k \<noteq> handle ob) (object_by_handle s),
                        objects := (objects s)(oid := None)\<rparr>))) \<and>
         (permitted s ManagerFree \<longrightarrow>
            (\<forall>oid ob. objects s oid = Some ob \<longrightarrow>
               num_active_operations ob = 0 \<and> pending_operations ob = []) \<and>
            (\<not> manager_freed s \<longrightarrow>
               step ManagerFree s =
                 Inr (s\<lparr>object_by_handle := [], objects := Map.empty,
                        manager_freed := True\<rparr>))) \<and>
         (\<forall>oid. permitted s (WeakNotify oid) \<longrightarrow>
            step (WeakNotify oid) s \<noteq> Inl AssertionFailed) \<and>
         (permitted s ManagerFree \<longrightarrow> step ManagerFree s \<noteq> Inl AssertionFailed)"
proof -
  have inv: "invariant {} s" using assms by (rule reachable_invariant)
  have w: "permitted s (WeakNotify oid) \<Longrightarrow>
            (\<exists>ob. objects s oid = Some ob \<and> num_active_operations ob = 0 \<and>
               pending_operations ob = [] \<and>
               step (WeakNotify oid) s =
                 Inr (s\<lparr>object_by_handle :=
                          filter (\<lambda>(k, v). k \<noteq> handle ob) (object_by_handle s),
                        objects := (objects s)(oid := None)\<rparr>))" for oid
    using inv by (rule weak_notify_ok)
  have w2: "permitted s (WeakNotify oid) \<Longrightarrow> step (WeakNotify oid) s \<noteq> Inl AssertionFailed"
    for oid
    using w[of oid] by auto
  have m: "permitted s ManagerFree \<Longrightarrow>
            (\<forall>oid ob. objects s oid = Some ob \<longrightarrow>
               num_active_operations ob = 0 \<and> pending_operations ob = []) \<and>
            (\<not> manager_freed s \<longrightarrow>
               step ManagerFree s =
                 Inr (s\<lparr>object_by_handle := [], objects := Map.empty,
                        manager_freed := True\<rparr>))"
    using inv by (rule manager_free_ok)
  have m2: "permitted s ManagerFree \<Longrightarrow> step ManagerFree s \<noteq> Inl AssertionFailed"
  proof (cases "manager_freed s")
    case True
    then show ?thesis by (simp add: gum_v8_object_manager_free_def)
  next
    case False
    assume "permitted s ManagerFree"
    then show ?thesis using m False by simp
  qed
  show ?thesis using w w2 m m2 by blast
qed

theorem destroyed_objects_are_idle_witness:
  "exec [ManagerAdd 7, OperationNew 0 True, Schedule 0, Finish 0]
     (gum_v8_object_manager_init 0) \<noteq> None \<and>
   permitted (the (exec [ManagerAdd 7, OperationNew 0 True, Schedule 0, Finish 0]
     (gum_v8_object_manager_init 0))) (WeakNotify 0) \<and>
   permitted (the (exec [ManagerAdd 7, OperationNew 0 True, Schedule 0, Finish 0]
     (gum_v8_object_manager_init 0))) ManagerFree \<and>
   step (WeakNotify 0) (the (exec [ManagerAdd 7, OperationNew 0 True, Schedule 0, Finish 0]
     (gum_v8_object_manager_init 0))) \<noteq> Inl AssertionFailed \<and>
   step ManagerFree (the (exec [ManagerAdd 7, OperationNew 0 True, Schedule 0, Finish 0]
     (gum_v8_object_manager_init 0))) \<noteq> Inl AssertionFailed"
  using destroyed_objects_are_idle
    [of "[ManagerAdd 7, OperationNew 0 True, Schedule 0, Finish 0]" 0
        "the (exec [ManagerAdd 7, OperationNew 0 True, Schedule 0, Finish 0]
           (gum_v8_object_manager_init 0))"]
  by (simp add: model_defs)

section \<open>The dependency barrier\<close>

text \<open>
  C3, as amended. In every state reached by a schedule of calls: (1) scheduling
  an unsubmitted operation when idle with an array of allocated dependencies
  succeeds and creates one probe for each entry of the array whose object has a
  counter that is not zero, in the order of the array, and nothing for an idle
  one; the array is not de-duplicated, so an object that is listed several times
  gets one probe for each of its entries; each probe blocks the operation and is
  queued on its dependency, the pending dependencies of the operation are
  exactly these probes, no other operation changes, and the operation is not
  started when there is a probe; (2) as long as a probe is allocated, the
  operation it blocks lists it as pending, is not started and is in no queue;
  (3) a started operation has no pending dependency; (4) performing a started
  probe succeeds when the objects of the probe and of the blocked operation are
  allocated, and it frees the probe and removes it, and nothing else, from the
  pending dependencies of the blocked operation, which is then started or
  queued on its object when no pending dependency is left and stays unstarted
  and unqueued otherwise, whichever of its probes is performed first.
\<close>

theorem dependency_barrier:
  assumes "exec es (gum_v8_object_manager_init u) = Some s"
  shows "(\<forall>self ds me.
            permitted s (ScheduleWhenIdle self (Some ds)) \<longrightarrow>
            (\<forall>d\<in>set ds. objects s d \<noteq> None) \<longrightarrow>
            operations s self = Some me \<longrightarrow> objects s (object me) \<noteq> None \<longrightarrow>
            (\<exists>s'. step (ScheduleWhenIdle self (Some ds)) s = Inr s' \<and>
               next_operation s' = next_operation s + length (busy_dependencies s ds) \<and>
               (\<forall>i < length (busy_dependencies s ds).
                  operations s' (next_operation s + i) =
                    Some (probe_for self (busy_dependencies s ds ! i)) \<and>
                  next_operation s + i \<in> set (queue_of s' (busy_dependencies s ds ! i))) \<and>
               (\<forall>q. q \<noteq> self \<longrightarrow> q < next_operation s \<longrightarrow>
                  operations s' q = operations s q) \<and>
               (\<exists>me'. operations s' self = Some me' \<and>
                  pending_dependencies me' =
                    rev [next_operation s ..<
                         next_operation s + length (busy_dependencies s ds)] \<and>
                  (busy_dependencies s ds \<noteq> [] \<longrightarrow> \<not> job_started me')))) \<and>
         (\<forall>p probe b.
            operations s p = Some probe \<longrightarrow> blocked_operation probe = Some b \<longrightarrow>
            (\<exists>bo. operations s b = Some bo \<and> p \<in> set (pending_dependencies bo) \<and>
               \<not> job_started bo \<and> (\<forall>oid. b \<notin> set (queue_of s oid)))) \<and>
         (\<forall>p op. operations s p = Some op \<longrightarrow> job_started op \<longrightarrow>
            pending_dependencies op = []) \<and>
         (\<forall>p probe b bo.
            permitted s (Perform p) \<longrightarrow> operations s p = Some probe \<longrightarrow>
            blocked_operation probe = Some b \<longrightarrow> operations s b = Some bo \<longrightarrow>
            (objects s (object probe) \<noteq> None \<longrightarrow> objects s (object bo) \<noteq> None \<longrightarrow>
               (\<exists>s'. step (Perform p) s = Inr s')) \<and>
            (\<forall>s'. step (Perform p) s = Inr s' \<longrightarrow>
               operations s' p = None \<and>
               (\<exists>bo'. operations s' b = Some bo' \<and>
                  pending_dependencies bo' = remove1 p (pending_dependencies bo) \<and>
                  (pending_dependencies bo' = [] \<longrightarrow>
                     job_started bo' \<or> b \<in> set (queue_of s' (object bo'))) \<and>
                  (pending_dependencies bo' \<noteq> [] \<longrightarrow>
                     \<not> job_started bo' \<and> (\<forall>oid. b \<notin> set (queue_of s' oid))))))"
proof -
  have inv: "invariant {} s" using assms by (rule reachable_invariant)
  have A: "\<exists>s'. step (ScheduleWhenIdle self (Some ds)) s = Inr s' \<and>
               next_operation s' = next_operation s + length (busy_dependencies s ds) \<and>
               (\<forall>i < length (busy_dependencies s ds).
                  operations s' (next_operation s + i) =
                    Some (probe_for self (busy_dependencies s ds ! i)) \<and>
                  next_operation s + i \<in> set (queue_of s' (busy_dependencies s ds ! i))) \<and>
               (\<forall>q. q \<noteq> self \<longrightarrow> q < next_operation s \<longrightarrow>
                  operations s' q = operations s q) \<and>
               (\<exists>me'. operations s' self = Some me' \<and>
                  pending_dependencies me' =
                    rev [next_operation s ..<
                         next_operation s + length (busy_dependencies s ds)] \<and>
                  (busy_dependencies s ds \<noteq> [] \<longrightarrow> \<not> job_started me'))"
    if perm: "permitted s (ScheduleWhenIdle self (Some ds))"
      and live: "\<forall>d\<in>set ds. objects s d \<noteq> None"
      and me: "operations s self = Some me" and own: "objects s (object me) \<noteq> None"
    for self ds me
  proof -
    from perm have "unsubmitted s self" by simp
    from unsubmittedD[OF this] me have op: "\<not> job_started me"
      "pending_dependencies me = []" "blocked_operation me = None"
      "\<And>ob. objects s (object me) = Some ob \<Longrightarrow> self \<notin> set (pending_operations ob)"
      by auto
    have unq: "\<And>oid ob. objects s oid = Some ob \<Longrightarrow> self \<notin> set (pending_operations ob)"
      using unqueued_everywhere[OF inv me op(4)] .
    have live': "\<And>d. d \<in> set ds \<Longrightarrow> objects s d \<noteq> None" using live by blast
    have "\<exists>s'. gum_v8_object_operation_schedule_when_idle self (Some ds) s = Inr s' \<and>
           next_operation s' = next_operation s + length (busy_dependencies s ds) \<and>
           (\<forall>q. q \<noteq> self \<longrightarrow> q < next_operation s \<longrightarrow> operations s' q = operations s q) \<and>
           (\<forall>oid x. x \<in> set (queue_of s oid) \<longrightarrow> x \<in> set (queue_of s' oid)) \<and>
           (\<forall>i < length (busy_dependencies s ds).
              operations s' (next_operation s + i) =
                Some (probe_for self (busy_dependencies s ds ! i)) \<and>
              next_operation s + i \<in> set (queue_of s' (busy_dependencies s ds ! i))) \<and>
           (\<exists>me'. operations s' self = Some me' \<and>
              pending_dependencies me' =
                rev [next_operation s ..< next_operation s + length (busy_dependencies s ds)] @
                pending_dependencies me \<and>
              (pending_dependencies me' \<noteq> [] \<longrightarrow> \<not> job_started me'))"
    proof (rule schedule_when_idle_result[OF inv me op(1,3)])
      show "\<And>oid ob. objects s oid = Some ob \<Longrightarrow> self \<notin> set (pending_operations ob)"
        by (rule unq)
      show "\<And>d. d \<in> set ds \<Longrightarrow> objects s d \<noteq> None" by (rule live')
      show "objects s (object me) \<noteq> None" by (rule own)
    qed
    then obtain s' where r: "gum_v8_object_operation_schedule_when_idle self (Some ds) s = Inr s'"
      and nx: "next_operation s' = next_operation s + length (busy_dependencies s ds)"
      and fr: "\<forall>q. q \<noteq> self \<longrightarrow> q < next_operation s \<longrightarrow> operations s' q = operations s q"
      and pr: "\<forall>i < length (busy_dependencies s ds).
              operations s' (next_operation s + i) =
                Some (probe_for self (busy_dependencies s ds ! i)) \<and>
              next_operation s + i \<in> set (queue_of s' (busy_dependencies s ds ! i))"
      and mine: "\<exists>me'. operations s' self = Some me' \<and>
              pending_dependencies me' =
                rev [next_operation s ..< next_operation s + length (busy_dependencies s ds)] @
                pending_dependencies me \<and>
              (pending_dependencies me' \<noteq> [] \<longrightarrow> \<not> job_started me')"
      by blast
    from mine obtain me' where me': "operations s' self = Some me'"
      "pending_dependencies me' =
         rev [next_operation s ..< next_operation s + length (busy_dependencies s ds)]"
      "pending_dependencies me' \<noteq> [] \<longrightarrow> \<not> job_started me'"
      using op(2) by auto
    have "busy_dependencies s ds \<noteq> [] \<longrightarrow> \<not> job_started me'"
      using me'(2,3) by auto
    then show ?thesis using r nx pr fr me'(1,2) by auto
  qed
  have B: "\<exists>bo. operations s b = Some bo \<and> p \<in> set (pending_dependencies bo) \<and>
               \<not> job_started bo \<and> (\<forall>oid. b \<notin> set (queue_of s oid))"
    if "operations s p = Some probe" "blocked_operation probe = Some b" for p probe b
    using inv that by (rule blocked_operation_waits)
  have C: "pending_dependencies op = []" if "operations s p = Some op" "job_started op" for p op
    using sched_okD(4)[OF invariantD(1)[OF inv]] that unfolding started_ok_def by blast
  have D: "(objects s (object probe) \<noteq> None \<longrightarrow> objects s (object bo) \<noteq> None \<longrightarrow>
               (\<exists>s'. step (Perform p) s = Inr s')) \<and>
            (\<forall>s'. step (Perform p) s = Inr s' \<longrightarrow>
               operations s' p = None \<and>
               (\<exists>bo'. operations s' b = Some bo' \<and>
                  pending_dependencies bo' = remove1 p (pending_dependencies bo) \<and>
                  (pending_dependencies bo' = [] \<longrightarrow>
                     job_started bo' \<or> b \<in> set (queue_of s' (object bo'))) \<and>
                  (pending_dependencies bo' \<noteq> [] \<longrightarrow>
                     \<not> job_started bo' \<and> (\<forall>oid. b \<notin> set (queue_of s' oid)))))"
    if perm: "permitted s (Perform p)" and live: "operations s p = Some probe"
      and bl: "blocked_operation probe = Some b" and bo: "operations s b = Some bo"
    for p probe b bo
  proof -
    from perm live have st: "job_started probe" by simp
    have D1: "\<exists>s'. step (Perform p) s = Inr s'"
      if "objects s (object probe) \<noteq> None" "objects s (object bo) \<noteq> None"
      using perform_succeeds[OF inv live st bl bo that] by simp
    have D2: "operations s' p = None \<and>
               (\<exists>bo'. operations s' b = Some bo' \<and>
                  pending_dependencies bo' = remove1 p (pending_dependencies bo) \<and>
                  (pending_dependencies bo' = [] \<longrightarrow>
                     job_started bo' \<or> b \<in> set (queue_of s' (object bo'))) \<and>
                  (pending_dependencies bo' \<noteq> [] \<longrightarrow>
                     \<not> job_started bo' \<and> (\<forall>oid. b \<notin> set (queue_of s' oid))))"
      if "step (Perform p) s = Inr s'" for s'
    proof -
      from that have "gum_v8_try_schedule_if_idle_operation_perform p s = Inr s'" by simp
      from perform_result[OF inv live st bl this] bo show ?thesis by auto
    qed
    have D2': "\<forall>s'. step (Perform p) s = Inr s' \<longrightarrow>
               operations s' p = None \<and>
               (\<exists>bo'. operations s' b = Some bo' \<and>
                  pending_dependencies bo' = remove1 p (pending_dependencies bo) \<and>
                  (pending_dependencies bo' = [] \<longrightarrow>
                     job_started bo' \<or> b \<in> set (queue_of s' (object bo'))) \<and>
                  (pending_dependencies bo' \<noteq> [] \<longrightarrow>
                     \<not> job_started bo' \<and> (\<forall>oid. b \<notin> set (queue_of s' oid))))"
      by (intro allI impI) (rule D2; assumption)
    have D1': "objects s (object probe) \<noteq> None \<longrightarrow> objects s (object bo) \<noteq> None \<longrightarrow>
               (\<exists>s'. step (Perform p) s = Inr s')"
      by (intro impI) (rule D1; assumption)
    show ?thesis by (intro conjI D1' D2')
  qed
  have A': "\<forall>self ds me.
            permitted s (ScheduleWhenIdle self (Some ds)) \<longrightarrow>
            (\<forall>d\<in>set ds. objects s d \<noteq> None) \<longrightarrow>
            operations s self = Some me \<longrightarrow> objects s (object me) \<noteq> None \<longrightarrow>
            (\<exists>s'. step (ScheduleWhenIdle self (Some ds)) s = Inr s' \<and>
               next_operation s' = next_operation s + length (busy_dependencies s ds) \<and>
               (\<forall>i < length (busy_dependencies s ds).
                  operations s' (next_operation s + i) =
                    Some (probe_for self (busy_dependencies s ds ! i)) \<and>
                  next_operation s + i \<in> set (queue_of s' (busy_dependencies s ds ! i))) \<and>
               (\<forall>q. q \<noteq> self \<longrightarrow> q < next_operation s \<longrightarrow>
                  operations s' q = operations s q) \<and>
               (\<exists>me'. operations s' self = Some me' \<and>
                  pending_dependencies me' =
                    rev [next_operation s ..<
                         next_operation s + length (busy_dependencies s ds)] \<and>
                  (busy_dependencies s ds \<noteq> [] \<longrightarrow> \<not> job_started me')))"
    by (intro allI impI) (rule A; assumption)
  have B': "\<forall>p probe b.
            operations s p = Some probe \<longrightarrow> blocked_operation probe = Some b \<longrightarrow>
            (\<exists>bo. operations s b = Some bo \<and> p \<in> set (pending_dependencies bo) \<and>
               \<not> job_started bo \<and> (\<forall>oid. b \<notin> set (queue_of s oid)))"
    by (intro allI impI) (rule B; assumption)
  have C': "\<forall>p op. operations s p = Some op \<longrightarrow> job_started op \<longrightarrow>
            pending_dependencies op = []"
    by (intro allI impI) (rule C; assumption)
  have D': "\<forall>p probe b bo.
            permitted s (Perform p) \<longrightarrow> operations s p = Some probe \<longrightarrow>
            blocked_operation probe = Some b \<longrightarrow> operations s b = Some bo \<longrightarrow>
            (objects s (object probe) \<noteq> None \<longrightarrow> objects s (object bo) \<noteq> None \<longrightarrow>
               (\<exists>s'. step (Perform p) s = Inr s')) \<and>
            (\<forall>s'. step (Perform p) s = Inr s' \<longrightarrow>
               operations s' p = None \<and>
               (\<exists>bo'. operations s' b = Some bo' \<and>
                  pending_dependencies bo' = remove1 p (pending_dependencies bo) \<and>
                  (pending_dependencies bo' = [] \<longrightarrow>
                     job_started bo' \<or> b \<in> set (queue_of s' (object bo'))) \<and>
                  (pending_dependencies bo' \<noteq> [] \<longrightarrow>
                     \<not> job_started bo' \<and> (\<forall>oid. b \<notin> set (queue_of s' oid)))))"
    by (intro allI impI) (rule D; assumption)
  show ?thesis by (intro conjI A' B' C' D')
qed

theorem dependency_barrier_witness:
  "permitted (the (exec [ManagerAdd 7, ManagerAdd 8, ManagerAdd 9, OperationNew 0 False, Schedule 0,
         OperationNew 1 False, Schedule 1, OperationNew 2 False]
        (gum_v8_object_manager_init 0))) (ScheduleWhenIdle 2 (Some [0, 1])) \<and>
   busy_dependencies (the (exec [ManagerAdd 7, ManagerAdd 8, ManagerAdd 9, OperationNew 0 False, Schedule 0,
         OperationNew 1 False, Schedule 1, OperationNew 2 False]
        (gum_v8_object_manager_init 0))) [0, 1] = [0, 1] \<and>
   operations (the (exec [ManagerAdd 7, ManagerAdd 8, ManagerAdd 9, OperationNew 0 False, Schedule 0,
         OperationNew 1 False, Schedule 1, OperationNew 2 False,
         ScheduleWhenIdle 2 (Some [0, 1])]
        (gum_v8_object_manager_init 0))) 3 = Some (probe_for 2 0) \<and>
   operations (the (exec [ManagerAdd 7, ManagerAdd 8, ManagerAdd 9, OperationNew 0 False, Schedule 0,
         OperationNew 1 False, Schedule 1, OperationNew 2 False,
         ScheduleWhenIdle 2 (Some [0, 1])]
        (gum_v8_object_manager_init 0))) 4 = Some (probe_for 2 1) \<and>
   map_option pending_dependencies (operations (the (exec [ManagerAdd 7, ManagerAdd 8, ManagerAdd 9, OperationNew 0 False, Schedule 0,
         OperationNew 1 False, Schedule 1, OperationNew 2 False,
         ScheduleWhenIdle 2 (Some [0, 1])]
        (gum_v8_object_manager_init 0))) 2) = Some [4, 3] \<and>
   map_option job_started (operations (the (exec [ManagerAdd 7, ManagerAdd 8, ManagerAdd 9, OperationNew 0 False, Schedule 0,
         OperationNew 1 False, Schedule 1, OperationNew 2 False,
         ScheduleWhenIdle 2 (Some [0, 1])]
        (gum_v8_object_manager_init 0))) 2) = Some False \<and>
   permitted (the (exec [ManagerAdd 7, ManagerAdd 8, ManagerAdd 9, OperationNew 0 False, Schedule 0,
         OperationNew 1 False, Schedule 1, OperationNew 2 False,
         ScheduleWhenIdle 2 (Some [0, 1]), Finish 0]
        (gum_v8_object_manager_init 0))) (Perform 3) \<and>
   map_option pending_dependencies (operations (the (exec [ManagerAdd 7, ManagerAdd 8, ManagerAdd 9, OperationNew 0 False, Schedule 0,
         OperationNew 1 False, Schedule 1, OperationNew 2 False,
         ScheduleWhenIdle 2 (Some [0, 1]), Finish 0, Perform 3]
        (gum_v8_object_manager_init 0))) 2) = Some [4] \<and>
   map_option job_started (operations (the (exec [ManagerAdd 7, ManagerAdd 8, ManagerAdd 9, OperationNew 0 False, Schedule 0,
         OperationNew 1 False, Schedule 1, OperationNew 2 False,
         ScheduleWhenIdle 2 (Some [0, 1]), Finish 0, Perform 3]
        (gum_v8_object_manager_init 0))) 2) = Some False \<and>
   exec [ManagerAdd 7, ManagerAdd 8, ManagerAdd 9, OperationNew 0 False, Schedule 0,
     OperationNew 1 False, Schedule 1, OperationNew 2 False,
     ScheduleWhenIdle 2 (Some [0, 1]), Finish 0, Perform 3, Finish 1, Perform 4]
    (gum_v8_object_manager_init 0) \<noteq> None \<and>
   map_option job_started (operations (the (exec [ManagerAdd 7, ManagerAdd 8, ManagerAdd 9, OperationNew 0 False, Schedule 0,
         OperationNew 1 False, Schedule 1, OperationNew 2 False,
         ScheduleWhenIdle 2 (Some [0, 1]), Finish 0, Perform 3, Finish 1, Perform 4]
        (gum_v8_object_manager_init 0))) 2) = Some True \<and>
   permitted (the (exec [ManagerAdd 7, ManagerAdd 8, ManagerAdd 9, OperationNew 0 False, Schedule 0,
         OperationNew 1 False, Schedule 1, OperationNew 2 False,
         ScheduleWhenIdle 2 (Some [0, 1]), Finish 1]
        (gum_v8_object_manager_init 0))) (Perform 4) \<and>
   map_option pending_dependencies (operations (the (exec [ManagerAdd 7, ManagerAdd 8, ManagerAdd 9, OperationNew 0 False, Schedule 0,
         OperationNew 1 False, Schedule 1, OperationNew 2 False,
         ScheduleWhenIdle 2 (Some [0, 1]), Finish 1, Perform 4]
        (gum_v8_object_manager_init 0))) 2) = Some [3] \<and>
   map_option job_started (operations (the (exec [ManagerAdd 7, ManagerAdd 8, ManagerAdd 9, OperationNew 0 False, Schedule 0,
         OperationNew 1 False, Schedule 1, OperationNew 2 False,
         ScheduleWhenIdle 2 (Some [0, 1]), Finish 1, Perform 4]
        (gum_v8_object_manager_init 0))) 2) = Some False \<and>
   exec [ManagerAdd 7, ManagerAdd 8, ManagerAdd 9, OperationNew 0 False, Schedule 0,
     OperationNew 1 False, Schedule 1, OperationNew 2 False,
     ScheduleWhenIdle 2 (Some [0, 1]), Finish 1, Perform 4, Finish 0, Perform 3]
    (gum_v8_object_manager_init 0) \<noteq> None \<and>
   map_option job_started (operations (the (exec [ManagerAdd 7, ManagerAdd 8, ManagerAdd 9, OperationNew 0 False, Schedule 0,
         OperationNew 1 False, Schedule 1, OperationNew 2 False,
         ScheduleWhenIdle 2 (Some [0, 1]), Finish 1, Perform 4, Finish 0, Perform 3]
        (gum_v8_object_manager_init 0))) 2) = Some True"
proof -
  define S0 where "S0 = the (exec [ManagerAdd 7, ManagerAdd 8, ManagerAdd 9, OperationNew 0 False, Schedule 0,
         OperationNew 1 False, Schedule 1, OperationNew 2 False]
      (gum_v8_object_manager_init 0))"
  define S1 where "S1 = the (exec [ManagerAdd 7, ManagerAdd 8, ManagerAdd 9, OperationNew 0 False, Schedule 0,
         OperationNew 1 False, Schedule 1, OperationNew 2 False,
         ScheduleWhenIdle 2 (Some [0, 1])]
      (gum_v8_object_manager_init 0))"
  define A1 where "A1 = the (exec [ManagerAdd 7, ManagerAdd 8, ManagerAdd 9, OperationNew 0 False, Schedule 0,
         OperationNew 1 False, Schedule 1, OperationNew 2 False,
         ScheduleWhenIdle 2 (Some [0, 1]), Finish 0]
      (gum_v8_object_manager_init 0))"
  define A2 where "A2 = the (exec [ManagerAdd 7, ManagerAdd 8, ManagerAdd 9, OperationNew 0 False, Schedule 0,
         OperationNew 1 False, Schedule 1, OperationNew 2 False,
         ScheduleWhenIdle 2 (Some [0, 1]), Finish 0, Perform 3]
      (gum_v8_object_manager_init 0))"
  define A3 where "A3 = the (exec [ManagerAdd 7, ManagerAdd 8, ManagerAdd 9, OperationNew 0 False, Schedule 0,
         OperationNew 1 False, Schedule 1, OperationNew 2 False,
         ScheduleWhenIdle 2 (Some [0, 1]), Finish 0, Perform 3, Finish 1, Perform 4]
      (gum_v8_object_manager_init 0))"
  define B1 where "B1 = the (exec [ManagerAdd 7, ManagerAdd 8, ManagerAdd 9, OperationNew 0 False, Schedule 0,
         OperationNew 1 False, Schedule 1, OperationNew 2 False,
         ScheduleWhenIdle 2 (Some [0, 1]), Finish 1]
      (gum_v8_object_manager_init 0))"
  define B2 where "B2 = the (exec [ManagerAdd 7, ManagerAdd 8, ManagerAdd 9, OperationNew 0 False, Schedule 0,
         OperationNew 1 False, Schedule 1, OperationNew 2 False,
         ScheduleWhenIdle 2 (Some [0, 1]), Finish 1, Perform 4]
      (gum_v8_object_manager_init 0))"
  define B3 where "B3 = the (exec [ManagerAdd 7, ManagerAdd 8, ManagerAdd 9, OperationNew 0 False, Schedule 0,
         OperationNew 1 False, Schedule 1, OperationNew 2 False,
         ScheduleWhenIdle 2 (Some [0, 1]), Finish 1, Perform 4, Finish 0, Perform 3]
      (gum_v8_object_manager_init 0))"
  have eS0: "exec [ManagerAdd 7, ManagerAdd 8, ManagerAdd 9, OperationNew 0 False, Schedule 0,
         OperationNew 1 False, Schedule 1, OperationNew 2 False]
      (gum_v8_object_manager_init 0) = Some S0"
    unfolding S0_def by (simp add: model_defs)
  have eA1: "exec [ManagerAdd 7, ManagerAdd 8, ManagerAdd 9, OperationNew 0 False, Schedule 0,
         OperationNew 1 False, Schedule 1, OperationNew 2 False,
         ScheduleWhenIdle 2 (Some [0, 1]), Finish 0]
      (gum_v8_object_manager_init 0) = Some A1"
    unfolding A1_def by (simp add: model_defs)
  have eB1: "exec [ManagerAdd 7, ManagerAdd 8, ManagerAdd 9, OperationNew 0 False, Schedule 0,
         OperationNew 1 False, Schedule 1, OperationNew 2 False,
         ScheduleWhenIdle 2 (Some [0, 1]), Finish 1]
      (gum_v8_object_manager_init 0) = Some B1"
    unfolding B1_def by (simp add: model_defs)
  have perm: "permitted S0 (ScheduleWhenIdle 2 (Some [0, 1]))"
    unfolding S0_def by (simp add: model_defs)
  have busy: "busy_dependencies S0 [0, 1] = [0, 1]"
    unfolding S0_def by (simp add: model_defs busy_dependencies_def)
  have live: "\<forall>d\<in>set [0, 1]. objects S0 d \<noteq> None"
    unfolding S0_def by (simp add: model_defs)
  have me: "operations S0 2 =
      Some \<lparr>object = 2, job_started = False, pending_dependencies = [], cleanup = False,
          blocked_operation = None\<rparr>"
    unfolding S0_def by (simp add: model_defs)
  have own: "objects S0 (object
        \<lparr>object = 2, job_started = False, pending_dependencies = [], cleanup = False,
          blocked_operation = None\<rparr>) \<noteq> None"
    unfolding S0_def by (simp add: model_defs)
  have nxt: "next_operation S0 = 3"
    unfolding S0_def by (simp add: model_defs)
  have step: "step (ScheduleWhenIdle 2 (Some [0, 1])) S0 = Inr S1"
    unfolding S0_def S1_def by (simp add: model_defs)
  note r = dependency_barrier [OF eS0, THEN conjunct1, rule_format (no_asm), OF perm live me own]
  have probes: "\<forall>i<2. operations S1 (3 + i) = Some (probe_for 2 ([0, 1] ! i))"
    and mine: "\<exists>me'. operations S1 2 = Some me' \<and> pending_dependencies me' = rev [3..<5] \<and>
      \<not> job_started me'"
    using r unfolding step busy nxt by auto
  have armed: "operations S1 3 = Some (probe_for 2 0)" "operations S1 4 = Some (probe_for 2 1)"
    using probes [rule_format, of 0] probes [rule_format, of 1] by simp_all
  have waiting: "map_option pending_dependencies (operations S1 2) = Some [4, 3]"
    "map_option job_started (operations S1 2) = Some False"
    using mine by (auto simp: upt_rec)
  have pA: "permitted A1 (Perform 3)"
    unfolding A1_def by (simp add: model_defs)
  have probeA: "operations A1 3 =
      Some \<lparr>object = 0, job_started = True, pending_dependencies = [], cleanup = False,
          blocked_operation = Some 2\<rparr>"
    unfolding A1_def by (simp add: model_defs)
  have blockedA: "blocked_operation
        \<lparr>object = 0, job_started = True, pending_dependencies = [], cleanup = False,
          blocked_operation = Some 2\<rparr> = Some 2"
    by simp
  have meA: "operations A1 2 =
      Some \<lparr>object = 2, job_started = False, pending_dependencies = [4, 3], cleanup = False,
          blocked_operation = None\<rparr>"
    unfolding A1_def by (simp add: model_defs)
  have stepA: "step (Perform 3) A1 = Inr A2"
    unfolding A1_def A2_def by (simp add: model_defs)
  note rA = dependency_barrier [OF eA1, THEN conjunct2, THEN conjunct2, THEN conjunct2,
      rule_format, OF pA probeA blockedA meA, THEN conjunct2, rule_format, OF stepA]
  have afterA: "map_option pending_dependencies (operations A2 2) = Some [4]"
    "map_option job_started (operations A2 2) = Some False"
    using rA by auto
  have pB: "permitted B1 (Perform 4)"
    unfolding B1_def by (simp add: model_defs)
  have probeB: "operations B1 4 =
      Some \<lparr>object = 1, job_started = True, pending_dependencies = [], cleanup = False,
          blocked_operation = Some 2\<rparr>"
    unfolding B1_def by (simp add: model_defs)
  have blockedB: "blocked_operation
        \<lparr>object = 1, job_started = True, pending_dependencies = [], cleanup = False,
          blocked_operation = Some 2\<rparr> = Some 2"
    by simp
  have meB: "operations B1 2 =
      Some \<lparr>object = 2, job_started = False, pending_dependencies = [4, 3], cleanup = False,
          blocked_operation = None\<rparr>"
    unfolding B1_def by (simp add: model_defs)
  have stepB: "step (Perform 4) B1 = Inr B2"
    unfolding B1_def B2_def by (simp add: model_defs)
  note rB = dependency_barrier [OF eB1, THEN conjunct2, THEN conjunct2, THEN conjunct2,
      rule_format, OF pB probeB blockedB meB, THEN conjunct2, rule_format, OF stepB]
  have afterB: "map_option pending_dependencies (operations B2 2) = Some [3]"
    "map_option job_started (operations B2 2) = Some False"
    using rB by auto
  have runA: "exec [ManagerAdd 7, ManagerAdd 8, ManagerAdd 9, OperationNew 0 False, Schedule 0,
         OperationNew 1 False, Schedule 1, OperationNew 2 False,
         ScheduleWhenIdle 2 (Some [0, 1]), Finish 0, Perform 3, Finish 1, Perform 4]
        (gum_v8_object_manager_init 0) \<noteq> None"
    by (simp add: model_defs)
  have runB: "exec [ManagerAdd 7, ManagerAdd 8, ManagerAdd 9, OperationNew 0 False, Schedule 0,
         OperationNew 1 False, Schedule 1, OperationNew 2 False,
         ScheduleWhenIdle 2 (Some [0, 1]), Finish 1, Perform 4, Finish 0, Perform 3]
        (gum_v8_object_manager_init 0) \<noteq> None"
    by (simp add: model_defs)
  have lastA: "map_option job_started (operations A3 2) = Some True"
    unfolding A3_def by (simp add: model_defs)
  have lastB: "map_option job_started (operations B3 2) = Some True"
    unfolding B3_def by (simp add: model_defs)
  show ?thesis
    using perm busy armed waiting pA afterA runA lastA pB afterB runB lastB
    unfolding S0_def S1_def A1_def A2_def A3_def B1_def B2_def B3_def
    by (intro conjI)
qed

text \<open>
  C3, as stated, fails on the clause that no dependency is probed more than
  once: object 0 is busy with operation 0, and operation 1 is scheduled when
  idle with the array \<open>[0, 0]\<close>. The loop creates the two probes 2 and 3 for
  the same object 0; both are queued on it and both are pending dependencies of
  operation 1.
\<close>

theorem duplicate_dependency_counterexample:
  "permitted (the (exec [ManagerAdd 7, ManagerAdd 8, OperationNew 0 False, Schedule 0, OperationNew 1 False]
       (gum_v8_object_manager_init 0))) (ScheduleWhenIdle 1 (Some [0, 0])) \<and>
   operations (the (exec [ManagerAdd 7, ManagerAdd 8, OperationNew 0 False, Schedule 0, OperationNew 1 False,
         ScheduleWhenIdle 1 (Some [0, 0])]
       (gum_v8_object_manager_init 0))) 2 = Some (probe_for 1 0) \<and>
   operations (the (exec [ManagerAdd 7, ManagerAdd 8, OperationNew 0 False, Schedule 0, OperationNew 1 False,
         ScheduleWhenIdle 1 (Some [0, 0])]
       (gum_v8_object_manager_init 0))) 3 = Some (probe_for 1 0) \<and>
   map_option object (operations (the (exec [ManagerAdd 7, ManagerAdd 8, OperationNew 0 False, Schedule 0, OperationNew 1 False,
         ScheduleWhenIdle 1 (Some [0, 0])]
       (gum_v8_object_manager_init 0))) 2) = Some 0 \<and>
   map_option object (operations (the (exec [ManagerAdd 7, ManagerAdd 8, OperationNew 0 False, Schedule 0, OperationNew 1 False,
         ScheduleWhenIdle 1 (Some [0, 0])]
       (gum_v8_object_manager_init 0))) 3) = Some 0 \<and>
   map_option pending_dependencies (operations (the (exec [ManagerAdd 7, ManagerAdd 8, OperationNew 0 False, Schedule 0, OperationNew 1 False,
         ScheduleWhenIdle 1 (Some [0, 0])]
       (gum_v8_object_manager_init 0))) 1) = Some [3, 2] \<and>
   queue_of (the (exec [ManagerAdd 7, ManagerAdd 8, OperationNew 0 False, Schedule 0, OperationNew 1 False,
         ScheduleWhenIdle 1 (Some [0, 0])]
       (gum_v8_object_manager_init 0))) 0 = [2, 3]"
  by (simp add: model_defs probe_for_def queue_of_def)

section \<open>Scheduling an operation when its object is idle\<close>

text \<open>
  C4. \<open>gum_v8_object_operation_try_schedule_when_idle\<close> on an allocated
  operation whose object is allocated: with pending dependencies left it
  changes nothing; otherwise, when the object's counter is zero, the counter
  becomes one and the job of the operation is started; otherwise the operation
  is appended at the tail of the object's pending queue and nothing else
  changes.
\<close>

theorem try_schedule_when_idle_cases:
  assumes "operations s p = Some op" and "objects s (object op) = Some ob"
  shows "gum_v8_object_operation_try_schedule_when_idle p s =
           (if pending_dependencies op \<noteq> [] then Inr s
            else if num_active_operations ob = 0
            then Inr (s\<lparr>objects := (objects s)(object op \<mapsto> ob\<lparr>num_active_operations := 1\<rparr>),
                         operations := (operations s)(p \<mapsto> op\<lparr>job_started := True\<rparr>),
                         trace := trace s @ [Increment (object op), JobStart p]\<rparr>)
            else Inr (s\<lparr>objects := (objects s)(object op \<mapsto>
                              ob\<lparr>pending_operations := pending_operations ob @ [p]\<rparr>),
                         trace := trace s @ [PushTail (object op) p]\<rparr>))"
  using assms by (rule try_schedule_eq)

theorem try_schedule_when_idle_cases_witness:
  "exec [ManagerAdd 7, OperationNew 0 False, Schedule 0, OperationNew 0 True]
     (gum_v8_object_manager_init 0) \<noteq> None \<and>
   (let s = the (exec [ManagerAdd 7, OperationNew 0 False, Schedule 0, OperationNew 0 True]
                   (gum_v8_object_manager_init 0))
    in map_option pending_operations (objects s 0) = Some [] \<and>
       map_option pending_operations
         (objects (projr (gum_v8_object_operation_try_schedule_when_idle 1 s)) 0) = Some [1])"
  using try_schedule_when_idle_cases
    [of "the (exec [ManagerAdd 7, OperationNew 0 False, Schedule 0, OperationNew 0 True]
                (gum_v8_object_manager_init 0))" 1
        "\<lparr>object = 0, job_started = False, pending_dependencies = [], cleanup = True,
          blocked_operation = None\<rparr>"
        "\<lparr>handle = 7, cancellable = False, num_active_operations = 1,
          pending_operations = []\<rparr>"]
  by (simp add: model_defs)

section \<open>Completion of an operation\<close>

text \<open>
  C5. \<open>gum_v8_object_operation_free\<close> on an allocated operation that waits
  for no probe and whose object is allocated performs, in this order: the
  cleanup callback when there is one, the release of the two persistent
  handles, the decrement of the object's counter, then, when the counter has
  reached zero and the queue is not empty, the removal of the head of the queue
  and its scheduling (counter incremented, job started), and last the unpin;
  finally the operation is freed. The head of the queue is taken to be an
  allocated operation of the same object, as \<open>completion_preconditions\<close> shows
  it is under the invariants.
\<close>

theorem operation_free_order:
  assumes "operations s p = Some op" and "objects s (object op) = Some ob"
    and "pending_dependencies op = []"
  shows "(num_active_operations ob - 1 \<noteq> 0 \<or> pending_operations ob = [] \<longrightarrow>
            gum_v8_object_operation_free p s =
              Inr (s\<lparr>objects := (objects s)(object op \<mapsto>
                         ob\<lparr>num_active_operations := num_active_operations ob - 1\<rparr>),
                     operations := (operations s)(p := None),
                     usage_count := usage_count s - 1,
                     trace := trace s @ (if cleanup op then [Cleanup p] else []) @
                       [DeleteWrapper p, DeleteCallback p, Decrement (object op), Unpin]\<rparr>)) \<and>
         (\<forall>nxt rest nop.
            num_active_operations ob - 1 = 0 \<and> pending_operations ob = nxt # rest \<and>
            operations s nxt = Some nop \<and> object nop = object op \<and> nxt \<noteq> p \<longrightarrow>
            gum_v8_object_operation_free p s =
              Inr (s\<lparr>objects := (objects s)(object op \<mapsto>
                         ob\<lparr>pending_operations := rest, num_active_operations := 1\<rparr>),
                     operations := (operations s)(nxt \<mapsto> nop\<lparr>job_started := True\<rparr>,
                                                   p := None),
                     usage_count := usage_count s - 1,
                     trace := trace s @ (if cleanup op then [Cleanup p] else []) @
                       [DeleteWrapper p, DeleteCallback p, Decrement (object op),
                        PopHead (object op) nxt, Increment (object op), JobStart nxt,
                        Unpin]\<rparr>))"
  using operation_free_plain[OF assms] operation_free_pop[OF assms] by blast

theorem operation_free_order_witness:
  "exec [ManagerAdd 7, OperationNew 0 True, Schedule 0, OperationNew 0 False,
         ScheduleWhenIdle 1 None] (gum_v8_object_manager_init 0) \<noteq> None \<and>
   map_option pending_operations
     (objects (the (exec [ManagerAdd 7, OperationNew 0 True, Schedule 0, OperationNew 0 False,
         ScheduleWhenIdle 1 None] (gum_v8_object_manager_init 0))) 0) = Some [1] \<and>
   trace (projr (gum_v8_object_operation_free 0
     (the (exec [ManagerAdd 7, OperationNew 0 True, Schedule 0, OperationNew 0 False,
         ScheduleWhenIdle 1 None] (gum_v8_object_manager_init 0))))) =
   trace (the (exec [ManagerAdd 7, OperationNew 0 True, Schedule 0, OperationNew 0 False,
         ScheduleWhenIdle 1 None] (gum_v8_object_manager_init 0))) @
     [Cleanup 0, DeleteWrapper 0, DeleteCallback 0, Decrement 0, PopHead 0 1, Increment 0,
      JobStart 1, Unpin]"
  using operation_free_order
    [of "the (exec [ManagerAdd 7, OperationNew 0 True, Schedule 0, OperationNew 0 False,
         ScheduleWhenIdle 1 None] (gum_v8_object_manager_init 0))" 0
        "\<lparr>object = 0, job_started = True, pending_dependencies = [], cleanup = True,
          blocked_operation = None\<rparr>"
        "\<lparr>handle = 7, cancellable = False, num_active_operations = 1,
          pending_operations = [1]\<rparr>"]
  by (simp add: model_defs)

section \<open>Order of the pending queue\<close>

text \<open>
  C6. In every state reached by a schedule of calls, for every object the
  operations pushed at the tail of its queue are those popped from its head
  followed by those still queued, in the same order; every pop is followed at
  once by the start of the popped operation; so when A was pushed before B and
  B has been popped, A was popped (and started) before B; and an operation
  still in the queue has not been started.
\<close>

theorem queue_is_fifo:
  assumes "exec es (gum_v8_object_manager_init u) = Some s"
  shows "(\<forall>oid. pushed oid (trace s) = popped oid (trace s) @ queue_of s oid) \<and>
         pops_started (trace s) \<and>
         (\<forall>oid us a vs b ws.
            pushed oid (trace s) = us @ a # vs @ b # ws \<longrightarrow>
            length (us @ a # vs) < length (popped oid (trace s)) \<longrightarrow>
            (\<exists>rs. popped oid (trace s) = us @ a # vs @ b # rs)) \<and>
         (\<forall>oid ob x. objects s oid = Some ob \<longrightarrow> x \<in> set (pending_operations ob) \<longrightarrow>
            (\<exists>op. operations s x = Some op \<and> object op = oid \<and> \<not> job_started op))"
proof -
  from reachable_history[OF assms] have f: "fifo_ok s" by (simp add: history_ok_def)
  have inv: "invariant {} s" using assms by (rule reachable_invariant)
  have 1: "\<forall>oid. pushed oid (trace s) = popped oid (trace s) @ queue_of s oid"
    using f by (simp add: fifo_ok_def)
  have 2: "pops_started (trace s)" using f by (simp add: fifo_ok_def)
  have 3: "\<exists>rs. popped oid (trace s) = us @ a # vs @ b # rs"
    if "pushed oid (trace s) = us @ a # vs @ b # ws"
      "length (us @ a # vs) < length (popped oid (trace s))" for oid us a vs b ws
  proof -
    have "popped oid (trace s) @ queue_of s oid = (us @ a # vs) @ b # ws"
      using 1 that(1) by simp
    from prefix_popped[OF this that(2)] show ?thesis by simp
  qed
  have 4: "\<exists>op. operations s x = Some op \<and> object op = oid \<and> \<not> job_started op"
    if "objects s oid = Some ob" "x \<in> set (pending_operations ob)" for oid ob x
    using queuedD[OF sched_okD(3)[OF invariantD(1)[OF inv]] that] by blast
  show ?thesis using 1 2 3 4 by blast
qed

theorem queue_is_fifo_witness:
  "exec [ManagerAdd 7, OperationNew 0 False, Schedule 0, OperationNew 0 False,
         ScheduleWhenIdle 1 None, OperationNew 0 False, ScheduleWhenIdle 2 None, Finish 0]
     (gum_v8_object_manager_init 0) \<noteq> None \<and>
   pushed 0 (trace (the (exec [ManagerAdd 7, OperationNew 0 False, Schedule 0,
         OperationNew 0 False, ScheduleWhenIdle 1 None, OperationNew 0 False,
         ScheduleWhenIdle 2 None, Finish 0] (gum_v8_object_manager_init 0)))) = [1, 2] \<and>
   popped 0 (trace (the (exec [ManagerAdd 7, OperationNew 0 False, Schedule 0,
         OperationNew 0 False, ScheduleWhenIdle 1 None, OperationNew 0 False,
         ScheduleWhenIdle 2 None, Finish 0] (gum_v8_object_manager_init 0)))) = [1] \<and>
   queue_of (the (exec [ManagerAdd 7, OperationNew 0 False, Schedule 0,
         OperationNew 0 False, ScheduleWhenIdle 1 None, OperationNew 0 False,
         ScheduleWhenIdle 2 None, Finish 0] (gum_v8_object_manager_init 0))) 0 = [2]"
  using queue_is_fifo
    [of "[ManagerAdd 7, OperationNew 0 False, Schedule 0, OperationNew 0 False,
          ScheduleWhenIdle 1 None, OperationNew 0 False, ScheduleWhenIdle 2 None, Finish 0]" 0
        "the (exec [ManagerAdd 7, OperationNew 0 False, Schedule 0, OperationNew 0 False,
          ScheduleWhenIdle 1 None, OperationNew 0 False, ScheduleWhenIdle 2 None, Finish 0]
          (gum_v8_object_manager_init 0))"]
  by (simp add: model_defs queue_of_def)

section \<open>Runtime pins\<close>

text \<open>
  C7. In every state reached by a schedule of calls from a usage count \<open>u\<close>,
  the usage count is \<open>u\<close> plus the number of allocated object operations plus
  the number of allocated module operations, and also \<open>u\<close> plus the pins minus
  the unpins logged so far: every operation of either kind holds exactly one
  pin from its creation to its completion. The count never goes below a
  non-negative \<open>u\<close> and is \<open>u\<close> again when no operation is left. Call by call:
  creating a module operation never fails, also after the manager has been
  freed, and creating an object operation on an allocated object succeeds; each
  allocates a new operation and adds one to the count; freeing an allocated
  module operation succeeds, and freeing it or an object operation releases
  the operation and takes one from the count.
\<close>

theorem pins_balance:
  assumes "exec es (gum_v8_object_manager_init u) = Some s"
  shows "usage_count s =
           u + int (card (dom (operations s))) + int (card (dom (module_operations s))) \<and>
         usage_count s =
           u + int (count_list (trace s) Pin) - int (count_list (trace s) Unpin) \<and>
         (0 \<le> u \<longrightarrow> 0 \<le> usage_count s) \<and>
         (operations s = Map.empty \<and> module_operations s = Map.empty \<longrightarrow> usage_count s = u) \<and>
         (\<forall>cl. \<exists>m s'. gum_v8_module_operation_new cl s = Inr (m, s') \<and>
            module_operations s m = None \<and> module_operations s' m \<noteq> None \<and>
            usage_count s' = usage_count s + 1) \<and>
         (\<forall>m. module_operations s m \<noteq> None \<longrightarrow>
            (\<exists>s'. gum_v8_module_operation_free m s = Inr s' \<and>
               module_operations s' m = None \<and> usage_count s' = usage_count s - 1)) \<and>
         (\<forall>oid cl. objects s oid \<noteq> None \<longrightarrow>
            (\<exists>p s'. gum_v8_object_operation_new oid cl s = Inr (p, s') \<and>
               operations s p = None \<and> operations s' p \<noteq> None \<and>
               usage_count s' = usage_count s + 1)) \<and>
         (\<forall>p s'. gum_v8_object_operation_free p s = Inr s' \<longrightarrow>
            operations s' p = None \<and> usage_count s' = usage_count s - 1)"
proof -
  from reachable_history[OF assms] have p: "pins_ok u s" by (simp add: history_ok_def)
  have b: "bounds s" using reachable_invariant[OF assms] by (rule invariantD(3))
  have A: "usage_count s =
           u + int (card (dom (operations s))) + int (card (dom (module_operations s)))"
    and B: "usage_count s =
           u + int (count_list (trace s) Pin) - int (count_list (trace s) Unpin)"
    using p unfolding pins_ok_def by auto
  have C: "0 \<le> u \<longrightarrow> 0 \<le> usage_count s" using A by simp
  have D: "operations s = Map.empty \<and> module_operations s = Map.empty \<longrightarrow> usage_count s = u"
    using A by simp
  have E: "\<forall>cl. \<exists>m s'. gum_v8_module_operation_new cl s = Inr (m, s') \<and>
            module_operations s m = None \<and> module_operations s' m \<noteq> None \<and>
            usage_count s' = usage_count s + 1"
    by (intro allI) (rule module_operation_new_pins[OF b])
  have F: "\<forall>m. module_operations s m \<noteq> None \<longrightarrow>
            (\<exists>s'. gum_v8_module_operation_free m s = Inr s' \<and>
               module_operations s' m = None \<and> usage_count s' = usage_count s - 1)"
    by (intro allI impI) (rule module_operation_free_unpins)
  have G: "\<forall>oid cl. objects s oid \<noteq> None \<longrightarrow>
            (\<exists>p s'. gum_v8_object_operation_new oid cl s = Inr (p, s') \<and>
               operations s p = None \<and> operations s' p \<noteq> None \<and>
               usage_count s' = usage_count s + 1)"
    by (intro allI impI) (rule operation_new_pins[OF b])
  have H: "\<forall>p s'. gum_v8_object_operation_free p s = Inr s' \<longrightarrow>
            operations s' p = None \<and> usage_count s' = usage_count s - 1"
    by (intro allI impI) (rule operation_free_unpins)
  show ?thesis by (intro conjI A B C D E F G H)
qed

theorem pins_balance_witness:
  "exec [ManagerAdd 7, OperationNew 0 False, ModuleOperationNew True, Schedule 0]
   (gum_v8_object_manager_init 5) \<noteq> None \<and>
   usage_count (the (exec [ManagerAdd 7, OperationNew 0 False, ModuleOperationNew True, Schedule 0]
       (gum_v8_object_manager_init 5))) = 7 \<and>
   usage_count (snd (projr (gum_v8_object_operation_new 0 True
      (the (exec [ManagerAdd 7, OperationNew 0 False, ModuleOperationNew True, Schedule 0]
       (gum_v8_object_manager_init 5)))))) = 8 \<and>
   usage_count (projr (gum_v8_module_operation_free 0
      (the (exec [ManagerAdd 7, OperationNew 0 False, ModuleOperationNew True, Schedule 0]
       (gum_v8_object_manager_init 5))))) = 6 \<and>
   usage_count (the (exec [ManagerAdd 7, OperationNew 0 False, ModuleOperationNew True, Schedule 0, Finish 0]
       (gum_v8_object_manager_init 5))) = 6 \<and>
   manager_freed (the (exec [ManagerAdd 7, OperationNew 0 False, ModuleOperationNew True, Schedule 0, Finish 0,
         ModuleFinish 0, ManagerFree]
       (gum_v8_object_manager_init 5))) \<and>
   usage_count (the (exec [ManagerAdd 7, OperationNew 0 False, ModuleOperationNew True, Schedule 0, Finish 0,
         ModuleFinish 0, ManagerFree]
       (gum_v8_object_manager_init 5))) = 5 \<and>
   usage_count (snd (projr (gum_v8_module_operation_new False
      (the (exec [ManagerAdd 7, OperationNew 0 False, ModuleOperationNew True, Schedule 0, Finish 0,
         ModuleFinish 0, ManagerFree]
       (gum_v8_object_manager_init 5)))))) = 6 \<and>
   exec [ManagerAdd 7, OperationNew 0 False, ModuleOperationNew True, Schedule 0, Finish 0,
     ModuleFinish 0, ManagerFree, ModuleOperationNew False, ModuleFinish 1]
   (gum_v8_object_manager_init 5) \<noteq> None \<and>
   usage_count (the (exec [ManagerAdd 7, OperationNew 0 False, ModuleOperationNew True, Schedule 0, Finish 0,
         ModuleFinish 0, ManagerFree, ModuleOperationNew False, ModuleFinish 1]
       (gum_v8_object_manager_init 5))) = 5"
proof -
  define SA where "SA = the (exec [ManagerAdd 7, OperationNew 0 False, ModuleOperationNew True, Schedule 0]
       (gum_v8_object_manager_init 5))"
  define SB where "SB = the (exec [ManagerAdd 7, OperationNew 0 False, ModuleOperationNew True, Schedule 0, Finish 0]
       (gum_v8_object_manager_init 5))"
  define SF where "SF = the (exec [ManagerAdd 7, OperationNew 0 False, ModuleOperationNew True, Schedule 0, Finish 0,
         ModuleFinish 0, ManagerFree]
       (gum_v8_object_manager_init 5))"
  define SZ where "SZ = the (exec [ManagerAdd 7, OperationNew 0 False, ModuleOperationNew True, Schedule 0, Finish 0,
         ModuleFinish 0, ManagerFree, ModuleOperationNew False, ModuleFinish 1]
       (gum_v8_object_manager_init 5))"
  have eSA: "exec [ManagerAdd 7, OperationNew 0 False, ModuleOperationNew True, Schedule 0]
       (gum_v8_object_manager_init 5) = Some SA"
    unfolding SA_def by (simp add: model_defs)
  have eSF: "exec [ManagerAdd 7, OperationNew 0 False, ModuleOperationNew True, Schedule 0, Finish 0,
         ModuleFinish 0, ManagerFree]
       (gum_v8_object_manager_init 5) = Some SF"
    unfolding SF_def by (simp add: model_defs)
  have eSZ: "exec [ManagerAdd 7, OperationNew 0 False, ModuleOperationNew True, Schedule 0, Finish 0,
         ModuleFinish 0, ManagerFree, ModuleOperationNew False, ModuleFinish 1]
       (gum_v8_object_manager_init 5) = Some SZ"
    unfolding SZ_def by (simp add: model_defs)
  note tA = pins_balance [OF eSA] and tF = pins_balance [OF eSF] and tZ = pins_balance [OF eSZ]
  have tr: "trace SA = [Pin, Pin, Increment 0, JobStart 0]"
    unfolding SA_def by (simp add: model_defs)
  have uA: "usage_count SA = 7"
    using tA [THEN conjunct2, THEN conjunct1] unfolding tr by simp
  have obj: "objects SA 0 \<noteq> None" and mop: "module_operations SA 0 \<noteq> None"
    unfolding SA_def by (simp_all add: model_defs)
  have new: "usage_count (snd (projr (gum_v8_object_operation_new 0 True SA))) = 8"
    using tA [THEN conjunct2, THEN conjunct2, THEN conjunct2, THEN conjunct2, THEN conjunct2,
        THEN conjunct2, THEN conjunct1, rule_format, OF obj, of True] uA
    by auto
  have mfree: "usage_count (projr (gum_v8_module_operation_free 0 SA)) = 6"
    using tA [THEN conjunct2, THEN conjunct2, THEN conjunct2, THEN conjunct2, THEN conjunct2,
        THEN conjunct1, rule_format, OF mop] uA
    by auto
  have fin: "gum_v8_object_operation_free 0 SA = Inr SB"
    unfolding SA_def SB_def by (simp add: model_defs)
  have uB: "usage_count SB = 6"
    using tA [THEN conjunct2, THEN conjunct2, THEN conjunct2, THEN conjunct2, THEN conjunct2,
        THEN conjunct2, THEN conjunct2, rule_format, OF fin] uA
    by simp
  have freed: "manager_freed SF"
    unfolding SF_def by (simp add: model_defs)
  have noneF: "operations SF = Map.empty \<and> module_operations SF = Map.empty"
    unfolding SF_def by (simp add: model_defs)
  have uF: "usage_count SF = 5"
    using tF [THEN conjunct2, THEN conjunct2, THEN conjunct2, THEN conjunct1] noneF by blast
  have mnew: "usage_count (snd (projr (gum_v8_module_operation_new False SF))) = 6"
    using tF [THEN conjunct2, THEN conjunct2, THEN conjunct2, THEN conjunct2, THEN conjunct1,
        rule_format, of False] uF
    by auto
  have noneZ: "operations SZ = Map.empty \<and> module_operations SZ = Map.empty"
    unfolding SZ_def by (simp add: model_defs)
  have uZ: "usage_count SZ = 5"
    using tZ [THEN conjunct2, THEN conjunct2, THEN conjunct2, THEN conjunct1] noneZ by blast
  have rA: "exec [ManagerAdd 7, OperationNew 0 False, ModuleOperationNew True, Schedule 0]
       (gum_v8_object_manager_init 5) \<noteq> None"
    using eSA by simp
  have rZ: "exec [ManagerAdd 7, OperationNew 0 False, ModuleOperationNew True, Schedule 0, Finish 0,
         ModuleFinish 0, ManagerFree, ModuleOperationNew False, ModuleFinish 1]
       (gum_v8_object_manager_init 5) \<noteq> None"
    using eSZ by simp
  show ?thesis
    using rA uA new mfree uB freed uF mnew rZ uZ
    unfolding SA_def SB_def SF_def SZ_def
    by (intro conjI)
qed

section \<open>Cancellation\<close>

text \<open>
  C8. In every state reached by a schedule of calls, with the manager not freed,
  \<open>gum_v8_object_manager_cancel\<close> returns FALSE and changes nothing for a handle
  that is not in the table, and for a handle in the table it returns TRUE and
  cancels the cancellable of the object registered under it, changing nothing
  else.
\<close>

theorem manager_cancel_found_iff_registered:
  assumes "exec es (gum_v8_object_manager_init u) = Some s" and "\<not> manager_freed s"
  shows "(map_of (object_by_handle s) h = None \<longrightarrow>
            gum_v8_object_manager_cancel h s = Inr (False, s)) \<and>
         (\<forall>oid. map_of (object_by_handle s) h = Some oid \<longrightarrow>
            (\<exists>ob. objects s oid = Some ob \<and> handle ob = h \<and>
               gum_v8_object_manager_cancel h s =
                 Inr (True, s\<lparr>objects := (objects s)(oid \<mapsto> ob\<lparr>cancellable := True\<rparr>)\<rparr>)))"
  using reachable_invariant[OF assms(1)] assms(2) by (rule manager_cancel_eq)

theorem manager_cancel_found_iff_registered_witness:
  "exec [ManagerAdd 7] (gum_v8_object_manager_init 0) \<noteq> None \<and>
   \<not> manager_freed (the (exec [ManagerAdd 7] (gum_v8_object_manager_init 0))) \<and>
   map_option fst (Some (projr (gum_v8_object_manager_cancel 7
      (the (exec [ManagerAdd 7] (gum_v8_object_manager_init 0)))))) = Some True \<and>
   gum_v8_object_manager_cancel 8 (the (exec [ManagerAdd 7] (gum_v8_object_manager_init 0)))
     = Inr (False, the (exec [ManagerAdd 7] (gum_v8_object_manager_init 0)))"
  using manager_cancel_found_iff_registered
    [of "[ManagerAdd 7]" 0 "the (exec [ManagerAdd 7] (gum_v8_object_manager_init 0))" 7]
    manager_cancel_found_iff_registered
    [of "[ManagerAdd 7]" 0 "the (exec [ManagerAdd 7] (gum_v8_object_manager_init 0))" 8]
  by (simp add: model_defs)

text \<open>
  C9. In every state reached by a schedule of calls, with the manager not freed,
  \<open>gum_v8_object_manager_flush\<close> succeeds and changes exactly the
  cancellables: that of every allocated object (each of which is in the table)
  and that of the manager become cancelled; the table, the counters, the
  pending queues, the operations and the started jobs are as before.
\<close>

theorem manager_flush_cancels_only:
  assumes "exec es (gum_v8_object_manager_init u) = Some s" and "\<not> manager_freed s"
  shows "gum_v8_object_manager_flush s =
           Inr (s\<lparr>objects :=
                    (\<lambda>oid. map_option (\<lambda>ob. ob\<lparr>cancellable := True\<rparr>) (objects s oid)),
                  manager_cancellable := True\<rparr>) \<and>
         (\<forall>h oid. map_of (object_by_handle s) h = Some oid \<longrightarrow> objects s oid \<noteq> None)"
  using manager_flush_eq[OF reachable_invariant[OF assms(1)] assms(2)]
    registry_entry_live[OF reachable_invariant[OF assms(1)]]
  by auto

theorem manager_flush_cancels_only_witness:
  "exec [ManagerAdd 7, OperationNew 0 False, Schedule 0] (gum_v8_object_manager_init 0) \<noteq> None \<and>
   \<not> manager_freed (the (exec [ManagerAdd 7, OperationNew 0 False, Schedule 0]
        (gum_v8_object_manager_init 0))) \<and>
   manager_cancellable (projr (gum_v8_object_manager_flush
     (the (exec [ManagerAdd 7, OperationNew 0 False, Schedule 0]
        (gum_v8_object_manager_init 0))))) \<and>
   map_option cancellable (objects (projr (gum_v8_object_manager_flush
     (the (exec [ManagerAdd 7, OperationNew 0 False, Schedule 0]
        (gum_v8_object_manager_init 0))))) 0) = Some True \<and>
   map_option num_active_operations (objects (projr (gum_v8_object_manager_flush
     (the (exec [ManagerAdd 7, OperationNew 0 False, Schedule 0]
        (gum_v8_object_manager_init 0))))) 0) = Some 1"
  using manager_flush_cancels_only
    [of "[ManagerAdd 7, OperationNew 0 False, Schedule 0]" 0
        "the (exec [ManagerAdd 7, OperationNew 0 False, Schedule 0]
           (gum_v8_object_manager_init 0))"]
  by (simp add: model_defs)

section \<open>Probes\<close>

text \<open>
  C10. In every state reached by a schedule of calls, a probe (an operation
  created by schedule-when-idle to watch a dependency) has no pending
  dependencies of its own, and no operation is a probe blocking a probe: probes
  are leaves and never nest.
\<close>

theorem probes_are_leaves:
  assumes "exec es (gum_v8_object_manager_init u) = Some s"
    and "operations s p = Some probe" and "blocked_operation probe = Some b"
  shows "pending_dependencies probe = [] \<and>
         (\<forall>q qo. operations s q = Some qo \<longrightarrow> blocked_operation qo \<noteq> Some p)"
proof -
  have inv: "invariant {} s" using assms(1) by (rule reachable_invariant)
  note pr = sched_okD(5)[OF invariantD(1)[OF inv]]
  have pd: "pending_dependencies probe = []"
    using pr assms(2,3) by (rule probe_pendingD)
  have "blocked_operation qo \<noteq> Some p" if "operations s q = Some qo" for q qo
  proof
    assume "blocked_operation qo = Some p"
    from probe_blockedD[OF pr that this] assms(2) pd show False by auto
  qed
  then show ?thesis using pd by blast
qed

theorem probes_are_leaves_witness:
  "exec [ManagerAdd 7, ManagerAdd 8, OperationNew 0 False, Schedule 0, OperationNew 1 False,
         ScheduleWhenIdle 1 (Some [0])] (gum_v8_object_manager_init 0) \<noteq> None \<and>
   map_option blocked_operation
     (operations (the (exec [ManagerAdd 7, ManagerAdd 8, OperationNew 0 False, Schedule 0,
         OperationNew 1 False, ScheduleWhenIdle 1 (Some [0])] (gum_v8_object_manager_init 0))) 2)
     = Some (Some 1) \<and>
   map_option pending_dependencies
     (operations (the (exec [ManagerAdd 7, ManagerAdd 8, OperationNew 0 False, Schedule 0,
         OperationNew 1 False, ScheduleWhenIdle 1 (Some [0])] (gum_v8_object_manager_init 0))) 2)
     = Some []"
  using probes_are_leaves
    [of "[ManagerAdd 7, ManagerAdd 8, OperationNew 0 False, Schedule 0, OperationNew 1 False,
          ScheduleWhenIdle 1 (Some [0])]" 0
        "the (exec [ManagerAdd 7, ManagerAdd 8, OperationNew 0 False, Schedule 0,
          OperationNew 1 False, ScheduleWhenIdle 1 (Some [0])] (gum_v8_object_manager_init 0))"
        2
        "\<lparr>object = 0, job_started = False, pending_dependencies = [], cleanup = False,
          blocked_operation = Some 1\<rparr>" 1]
  by (simp add: model_defs)

end
